theory Spec2Isabelle
  imports Main "HOL-Library.Word" "HOL-Library.Signed_Division"
begin

section \<open>Data model of client\_conn\_pool.go\<close>

text \<open>
  Pointers are modelled by their identity: a \<^verbatim>\<open>*http2.ClientConn\<close> is a \<open>conn\<close>, a
  \<^verbatim>\<open>*clientConnGroup\<close> is a \<open>gref\<close> into the store \<open>heap\<close> of the pool state. A
  \<^verbatim>\<open>net.Conn\<close> and a \<^verbatim>\<open>*tls.Conn\<close> are handles as well. Error values made by the
  collaborators (package net, package tls, the protocol engine) are opaque codes
  wrapped in \<open>External\<close>; the two errors the file itself makes with
  \<^verbatim>\<open>fmt.Errorf\<close> have a constructor each, and a run-time panic (index or slice
  bound out of range) is \<open>Panic\<close>.
\<close>

type_synonym conn = nat
type_synonym gref = nat
type_synonym netConn = nat
type_synonym tlsConn = nat

datatype error =
    External nat
  | UnexpectedALPN string string
  | NoAvailableConnection string
  | Panic

definition NextProtoTLS :: string where
  "NextProtoTLS = ''h2''"

text \<open>The fields of \<^verbatim>\<open>tls.Config\<close> that the file reads or writes.\<close>

record tlsConfig =
  NextProtos :: "string list"
  ServerName :: string
  InsecureSkipVerify :: bool

text \<open>
  The \<^verbatim>\<open>http2.Transport\<close> as the factory uses it: the optional custom dial function,
  the optional base TLS configuration, and the engine's \<^verbatim>\<open>NewClientConn\<close>.
\<close>

record transport =
  DialTLS :: "(string \<Rightarrow> string \<Rightarrow> tlsConfig \<Rightarrow> nat + netConn) option"
  TLSClientConfig :: "tlsConfig option"
  NewClientConn :: "netConn \<Rightarrow> nat + conn"

text \<open>
  What the packages net and crypto/tls answer during one call of the factory:
  \<^verbatim>\<open>net.SplitHostPort\<close>, \<^verbatim>\<open>tls.Dialer.DialContext\<close>, \<^verbatim>\<open>Handshake\<close>,
  \<^verbatim>\<open>VerifyHostname\<close> and \<^verbatim>\<open>ConnectionState().NegotiatedProtocol\<close>.
\<close>

record netenv =
  SplitHostPort :: "string \<Rightarrow> nat + (string \<times> string)"
  DialContext :: "string \<Rightarrow> string \<Rightarrow> tlsConfig \<Rightarrow> nat + tlsConn"
  Handshake :: "tlsConn \<Rightarrow> nat option"
  VerifyHostname :: "tlsConn \<Rightarrow> string \<Rightarrow> nat option"
  NegotiatedProtocol :: "tlsConn \<Rightarrow> string"

text \<open>
  \<^verbatim>\<open>clientConnGroup\<close>. The back pointer \<^verbatim>\<open>p\<close> is the one pool of the state; the
  mutex is modelled by the atomicity of the steps below. \<^verbatim>\<open>connIdx\<close> is a Go
  \<^verbatim>\<open>int\<close> (64 bits, two's complement, \<^verbatim>\<open>++\<close> wraps), \<^verbatim>\<open>dialing\<close> an \<^verbatim>\<open>int32\<close>.
\<close>

record clientConnGroup =
  addr :: string
  connIdx :: "64 word"
  conns :: "conn list"
  keys :: "conn \<rightharpoonup> int"
  dialing :: "32 word"

text \<open>
  \<^verbatim>\<open>clientConnPool\<close> together with the store of the groups it has allocated:
  \<open>groups\<close> is \<^verbatim>\<open>p.groups\<close>, \<open>pkeys\<close> is \<^verbatim>\<open>p.keys\<close>, \<open>disableKeepAlives\<close> is
  \<^verbatim>\<open>p.t.DisableKeepAlives\<close>. A new group gets the reference \<open>nextRef\<close>.
\<close>

record clientConnPool =
  heap :: "gref \<Rightarrow> clientConnGroup"
  nextRef :: gref
  groups :: "string \<rightharpoonup> gref"
  pkeys :: "conn \<rightharpoonup> string"
  maxConnsPerHost :: int
  disableKeepAlives :: bool

section \<open>The connection factory\<close>

fun strSliceContains :: "string list \<Rightarrow> string \<Rightarrow> bool" where
  "strSliceContains [] s = False"
| "strSliceContains (v # ss) s = (if v = s then True else strSliceContains ss s)"

definition newTLSConfig :: "transport \<Rightarrow> string \<Rightarrow> tlsConfig" where
  "newTLSConfig t host =
     (let cfg0 = (case TLSClientConfig t of
                    None \<Rightarrow> \<lparr>NextProtos = [], ServerName = [], InsecureSkipVerify = False\<rparr>
                  | Some c \<Rightarrow> c);
          cfg1 = (if \<not> strSliceContains (NextProtos cfg0) NextProtoTLS
                  then cfg0\<lparr>NextProtos := NextProtoTLS # NextProtos cfg0\<rparr> else cfg0)
      in if ServerName cfg1 = [] then cfg1\<lparr>ServerName := host\<rparr> else cfg1)"

definition dialTLSWithContext ::
  "netenv \<Rightarrow> string \<Rightarrow> string \<Rightarrow> tlsConfig \<Rightarrow> error + tlsConn" where
  "dialTLSWithContext e network a cfg =
     (case DialContext e network a cfg of
        Inl err \<Rightarrow> Inl (External err)
      | Inr tc \<Rightarrow>
          (case Handshake e tc of
             Some err \<Rightarrow> Inl (External err)
           | None \<Rightarrow>
               if InsecureSkipVerify cfg then Inr tc
               else (case VerifyHostname e tc (ServerName cfg) of
                       Some err \<Rightarrow> Inl (External err)
                     | None \<Rightarrow> Inr tc)))"

definition dialClientConn :: "netenv \<Rightarrow> transport \<Rightarrow> string \<Rightarrow> error + conn" where
  "dialClientConn e t a =
     (case SplitHostPort e a of
        Inl err \<Rightarrow> Inl (External err)
      | Inr (host, port) \<Rightarrow>
          (case DialTLS t of
             Some f \<Rightarrow>
               (case f ''tcp'' a (newTLSConfig t host) of
                  Inl err \<Rightarrow> Inl (External err)
                | Inr c \<Rightarrow>
                    (case NewClientConn t c of
                       Inl err \<Rightarrow> Inl (External err) | Inr cc \<Rightarrow> Inr cc))
           | None \<Rightarrow>
               (case dialTLSWithContext e ''tcp'' a (newTLSConfig t host) of
                  Inl err \<Rightarrow> Inl err
                | Inr tc \<Rightarrow>
                    if NegotiatedProtocol e tc \<noteq> NextProtoTLS
                    then Inl (UnexpectedALPN (NegotiatedProtocol e tc) NextProtoTLS)
                    else (case NewClientConn t tc of
                            Inl err \<Rightarrow> Inl (External err) | Inr cc \<Rightarrow> Inr cc))))"

section \<open>Registration and removal\<close>

text \<open>
  \<^verbatim>\<open>addClientConn\<close> writes the group \<open>r\<close> and the pool's \<^verbatim>\<open>keys\<close>.
\<close>

definition addClientConn :: "gref \<Rightarrow> conn \<Rightarrow> clientConnPool \<Rightarrow> clientConnPool" where
  "addClientConn r c p =
     (let g = heap p r;
          g' = g\<lparr>keys := (keys g)(c \<mapsto> int (length (conns g))),
                 conns := conns g @ [c]\<rparr>
      in p\<lparr>heap := (heap p)(r := g'), pkeys := (pkeys p)(c \<mapsto> addr g)\<rparr>)"

text \<open>
  \<^verbatim>\<open>removeClientConn\<close> touches the group only. Indexing and slicing outside the
  slice panic in Go: \<^verbatim>\<open>g.conns[:len(g.conns)-1]\<close> and \<^verbatim>\<open>g.conns[len(g.conns)-1]\<close>
  on an empty slice, \<^verbatim>\<open>g.conns[idx]\<close> for an index outside it.
\<close>

definition removeClientConn :: "clientConnGroup \<Rightarrow> conn \<Rightarrow> error + clientConnGroup" where
  "removeClientConn g c =
     (case keys g c of
        None \<Rightarrow> Inr g
      | Some idx \<Rightarrow>
          let n = int (length (conns g)) in
          if idx = n - 1 then
            (if n - 1 < 0 then Inl Panic
             else Inr (g\<lparr>conns := take (nat (n - 1)) (conns g)\<rparr>))
          else if n - 1 < 0 then Inl Panic
          else
            let lastConn = conns g ! nat (n - 1) in
            if idx < 0 \<or> n \<le> idx then Inl Panic
            else Inr (g\<lparr>conns := take (nat (n - 1)) ((conns g)[nat idx := lastConn]),
                        keys := ((keys g)(lastConn \<mapsto> idx))(c := None)\<rparr>))"

section \<open>Selection inside a group\<close>

text \<open>
  The retry loop of \<^verbatim>\<open>getClientConn\<close> (lines 93 to 99). \<open>can\<close> is what
  \<^verbatim>\<open>CanTakeNewRequest\<close> answers during this call. The cursor is advanced with
  wrap-around; Go's \<^verbatim>\<open>%\<close> truncates (\<open>smod\<close>), so a negative cursor gives a negative
  index, and indexing outside the slice panics. The advanced cursor stays in the
  group whatever the outcome.
\<close>

function getClientConn_loop ::
  "nat \<Rightarrow> clientConnGroup \<Rightarrow> (conn \<Rightarrow> bool) \<Rightarrow> (error + conn) \<times> clientConnGroup" where
  "getClientConn_loop retry g can =
     (if retry < length (conns g) then
        (let g' = g\<lparr>connIdx := connIdx g + 1\<rparr>;
             i = sint (connIdx g') smod int (length (conns g'))
         in if i < 0 \<or> int (length (conns g')) \<le> i then (Inl Panic, g')
            else let c = conns g' ! nat i
                 in if can c then (Inr c, g')
                    else getClientConn_loop (retry + 1) g' can)
      else (Inl (NoAvailableConnection (addr g)), g))"
  by pat_completeness auto
termination
  by (relation "measure (\<lambda>(retry, g, can). length (conns g) - retry)") auto

text \<open>
  \<^verbatim>\<open>clientConnGroup.getClientConn\<close>, run under the group's lock. \<open>dial\<close> is the
  factory applied to the transport and the request's context
  (\<open>dialClientConn e t\<close>). The result is the returned pair, whether
  \<^verbatim>\<open>go g.dialClientConn(req)\<close> was executed, and the new state.
\<close>

definition getClientConn ::
  "(string \<Rightarrow> error + conn) \<Rightarrow> (conn \<Rightarrow> bool) \<Rightarrow> gref \<Rightarrow> clientConnPool
     \<Rightarrow> (error + conn) \<times> bool \<times> clientConnPool" where
  "getClientConn dial can r p =
     (let g = heap p r in
      if length (conns g) = 0 then
        (case dial (addr g) of
           Inl err \<Rightarrow> (Inl err, False, p)
         | Inr c \<Rightarrow> (Inr c, False, addClientConn r c p))
      else
        (let spawn = (maxConnsPerHost p \<le> 0 \<or> maxConnsPerHost p > int (length (conns g)));
             (res, g') = getClientConn_loop 0 g can
         in (res, spawn, p\<lparr>heap := (heap p)(r := g')\<rparr>)))"

section \<open>The pool\<close>

definition newGroup :: "string \<Rightarrow> clientConnGroup" where
  "newGroup a = \<lparr>addr = a, connIdx = 0, conns = [], keys = Map.empty, dialing = 0\<rparr>"

text \<open>Lines 30 to 40 of \<^verbatim>\<open>GetClientConn\<close>: look the group up or create it, under the pool's lock.\<close>

definition GetClientConn_group :: "string \<Rightarrow> clientConnPool \<Rightarrow> gref \<times> clientConnPool" where
  "GetClientConn_group a p =
     (case groups p a of
        Some r \<Rightarrow> (r, p)
      | None \<Rightarrow>
          (nextRef p,
           p\<lparr>heap := (heap p)(nextRef p := newGroup a),
             nextRef := Suc (nextRef p),
             groups := (groups p)(a \<mapsto> nextRef p)\<rparr>))"

definition GetClientConn ::
  "(string \<Rightarrow> error + conn) \<Rightarrow> (conn \<Rightarrow> bool) \<Rightarrow> string \<Rightarrow> clientConnPool
     \<Rightarrow> (error + conn) \<times> bool \<times> clientConnPool" where
  "GetClientConn dial can a p =
     (if disableKeepAlives p then (dial a, False, p)
      else (let (r, p1) = GetClientConn_group a p in getClientConn dial can r p1))"

text \<open>
  \<^verbatim>\<open>MarkDead\<close> has two critical sections: lines 45 to 57 under the pool's lock,
  lines 58 to 65 under the group's lock.
\<close>

definition MarkDead_lookup ::
  "conn \<Rightarrow> clientConnPool \<Rightarrow> (gref \<times> string) option \<times> clientConnPool" where
  "MarkDead_lookup c p =
     (case pkeys p c of
        None \<Rightarrow> (None, p)
      | Some a \<Rightarrow>
          (let p1 = p\<lparr>pkeys := (pkeys p)(c := None)\<rparr>
           in case groups p1 a of
                None \<Rightarrow> (None, p1)
              | Some r \<Rightarrow> (Some (r, a), p1)))"

definition MarkDead_remove ::
  "gref \<Rightarrow> string \<Rightarrow> conn \<Rightarrow> clientConnPool \<Rightarrow> error + clientConnPool" where
  "MarkDead_remove r a c p =
     (case removeClientConn (heap p r) c of
        Inl err \<Rightarrow> Inl err
      | Inr g' \<Rightarrow>
          (let p1 = p\<lparr>heap := (heap p)(r := g')\<rparr>
           in if length (conns g') = 0
              then Inr (p1\<lparr>groups := (groups p1)(a := None)\<rparr>)
              else Inr p1))"

definition MarkDead :: "conn \<Rightarrow> clientConnPool \<Rightarrow> error + clientConnPool" where
  "MarkDead c p =
     (case MarkDead_lookup c p of
        (None, p1) \<Rightarrow> Inr p1
      | (Some (r, a), p1) \<Rightarrow> MarkDead_remove r a c p1)"

text \<open>The pool as \<^verbatim>\<open>Transport.init\<close> makes it.\<close>

definition Transport_init :: "int \<Rightarrow> bool \<Rightarrow> clientConnPool" where
  "Transport_init mc dka =
     \<lparr>heap = (\<lambda>r. newGroup []), nextRef = 0, groups = Map.empty, pkeys = Map.empty,
      maxConnsPerHost = mc, disableKeepAlives = dka\<rparr>"

section \<open>The background dial\<close>

text \<open>
  The atomic pieces of \<^verbatim>\<open>clientConnGroup.dialClientConn\<close>: the compare-and-swap of
  line 104, the re-check of line 109, the deferred store of line 107.
\<close>

definition dial_cas :: "gref \<Rightarrow> clientConnPool \<Rightarrow> clientConnPool option" where
  "dial_cas r p =
     (if dialing (heap p r) = 0
      then Some (p\<lparr>heap := (heap p)(r := (heap p r)\<lparr>dialing := 1\<rparr>)\<rparr>)
      else None)"

definition dial_atCapacity :: "gref \<Rightarrow> clientConnPool \<Rightarrow> bool" where
  "dial_atCapacity r p = (int (length (conns (heap p r))) \<ge> maxConnsPerHost p)"

definition dial_reset :: "gref \<Rightarrow> clientConnPool \<Rightarrow> clientConnPool" where
  "dial_reset r p = p\<lparr>heap := (heap p)(r := (heap p r)\<lparr>dialing := 0\<rparr>)\<rparr>"

text \<open>The whole method, run without interference.\<close>

definition group_dialClientConn ::
  "(string \<Rightarrow> error + conn) \<Rightarrow> gref \<Rightarrow> clientConnPool \<Rightarrow> clientConnPool" where
  "group_dialClientConn dial r p =
     (case dial_cas r p of
        None \<Rightarrow> p
      | Some p1 \<Rightarrow>
          if dial_atCapacity r p1 then dial_reset r p1
          else (case dial (addr (heap p1 r)) of
                  Inl err \<Rightarrow> dial_reset r p1
                | Inr c \<Rightarrow> dial_reset r (addClientConn r c p1)))"

section \<open>Concurrent executions\<close>

text \<open>
  Goroutines are threads with a program counter. Each constructor is a point
  where a call holds no lock: \<open>GetConn\<close> after line 40 of \<^verbatim>\<open>GetClientConn\<close>,
  \<open>MarkDeadRemove\<close> after line 57 of \<^verbatim>\<open>MarkDead\<close>, and for the background dial
  \<open>DialStart\<close> (spawned by \<^verbatim>\<open>go\<close>), \<open>DialRecheck\<close> (flag acquired),
  \<open>Dialing\<close> (past line 113, the factory running), \<open>DialRegister\<close> (the factory
  returned a connection) and \<open>DialReset\<close> (only the deferred store is left).
\<close>

datatype task =
    Idle
  | GetConn gref
  | MarkDeadRemove gref string conn
  | DialStart gref
  | DialRecheck gref
  | Dialing gref
  | DialRegister gref conn
  | DialReset gref

type_synonym config = "clientConnPool \<times> (nat \<Rightarrow> task)"

text \<open>
  A connection made by \<^verbatim>\<open>NewClientConn\<close> is a new object: no map, slice or
  running call refers to it yet.
\<close>

definition fresh :: "conn \<Rightarrow> config \<Rightarrow> bool" where
  "fresh c cfg =
     (case cfg of (p, th) \<Rightarrow>
        pkeys p c = None \<and>
        (\<forall>r < nextRef p. c \<notin> set (conns (heap p r)) \<and> keys (heap p r) c = None) \<and>
        (\<forall>t r a. th t \<noteq> DialRegister r c \<and> th t \<noteq> MarkDeadRemove r a c))"

text \<open>
  The background dial holds the flag from the successful compare-and-swap to the
  deferred store.
\<close>

fun inflight :: "task \<Rightarrow> gref \<Rightarrow> bool" where
  "inflight (DialRecheck r') r = (r' = r)"
| "inflight (Dialing r') r = (r' = r)"
| "inflight (DialRegister r' c) r = (r' = r)"
| "inflight (DialReset r') r = (r' = r)"
| "inflight _ r = False"

text \<open>
  One atomic step of one thread. Every section that runs under a lock is one step;
  a panic unwinds the call and leaves what was written before it.
\<close>

inductive step :: "config \<Rightarrow> config \<Rightarrow> bool" where
  GetClientConn_enter:
    "th t = Idle \<Longrightarrow> \<not> disableKeepAlives p \<Longrightarrow> GetClientConn_group a p = (r, p') \<Longrightarrow>
     step (p, th) (p', th(t := GetConn r))"
| getClientConn_return:
    "th t = GetConn r \<Longrightarrow> (\<forall>c. dial (addr (heap p r)) = Inr c \<longrightarrow> fresh c (p, th)) \<Longrightarrow>
     getClientConn dial can r p = (res, False, p') \<Longrightarrow>
     step (p, th) (p', th(t := Idle))"
| getClientConn_go:
    "th t = GetConn r \<Longrightarrow> (\<forall>c. dial (addr (heap p r)) = Inr c \<longrightarrow> fresh c (p, th)) \<Longrightarrow>
     getClientConn dial can r p = (res, True, p') \<Longrightarrow> th t' = Idle \<Longrightarrow> t' \<noteq> t \<Longrightarrow>
     step (p, th) (p', th(t := Idle, t' := DialStart r))"
| MarkDead_unknown:
    "th t = Idle \<Longrightarrow> MarkDead_lookup c p = (None, p') \<Longrightarrow>
     step (p, th) (p', th)"
| MarkDead_enter:
    "th t = Idle \<Longrightarrow> MarkDead_lookup c p = (Some (r, a), p') \<Longrightarrow>
     step (p, th) (p', th(t := MarkDeadRemove r a c))"
| MarkDead_return:
    "th t = MarkDeadRemove r a c \<Longrightarrow> MarkDead_remove r a c p = Inr p' \<Longrightarrow>
     step (p, th) (p', th(t := Idle))"
| MarkDead_panic:
    "th t = MarkDeadRemove r a c \<Longrightarrow> MarkDead_remove r a c p = Inl err \<Longrightarrow>
     step (p, th) (p, th(t := Idle))"
| dial_cas_won:
    "th t = DialStart r \<Longrightarrow> dial_cas r p = Some p' \<Longrightarrow>
     step (p, th) (p', th(t := DialRecheck r))"
| dial_cas_lost:
    "th t = DialStart r \<Longrightarrow> dial_cas r p = None \<Longrightarrow>
     step (p, th) (p, th(t := Idle))"
| dial_abort:
    "th t = DialRecheck r \<Longrightarrow> dial_atCapacity r p \<Longrightarrow>
     step (p, th) (p, th(t := DialReset r))"
| dial_proceed:
    "th t = DialRecheck r \<Longrightarrow> \<not> dial_atCapacity r p \<Longrightarrow>
     step (p, th) (p, th(t := Dialing r))"
| dial_failed:
    "th t = Dialing r \<Longrightarrow>
     step (p, th) (p, th(t := DialReset r))"
| dial_succeeded:
    "th t = Dialing r \<Longrightarrow> fresh c (p, th) \<Longrightarrow>
     step (p, th) (p, th(t := DialRegister r c))"
| dial_register:
    "th t = DialRegister r c \<Longrightarrow>
     step (p, th) (addClientConn r c p, th(t := DialReset r))"
| dial_done:
    "th t = DialReset r \<Longrightarrow>
     step (p, th) (dial_reset r p, th(t := Idle))"

inductive reachable :: "config \<Rightarrow> bool" where
  reachable_init: "reachable (Transport_init mc dka, (\<lambda>t. Idle))"
| reachable_step: "reachable cfg \<Longrightarrow> step cfg cfg' \<Longrightarrow> reachable cfg'"

section \<open>Notions used in the statements\<close>




text \<open>
  The invariant of the concurrent executions. \<open>task_ref\<close> is the group a call works
  on, \<open>background\<close> holds of the background dial at any point, \<open>past_recheck\<close>
  once it has passed the re-check of line 109 and not yet registered. The
  invariant: the cap holds in every group; a background dial exists only without
  a cap or with a cap of at least 2 (line 90 starts it from a non-empty group below
  the cap); past the re-check the group is below the cap; at most one call per
  group holds the flag, and the flag is set while it does; every reference in use
  has been allocated.
\<close>

fun task_ref :: "task \<Rightarrow> gref option" where
  "task_ref Idle = None"
| "task_ref (GetConn r) = Some r"
| "task_ref (MarkDeadRemove r a c) = Some r"
| "task_ref (DialStart r) = Some r"
| "task_ref (DialRecheck r) = Some r"
| "task_ref (Dialing r) = Some r"
| "task_ref (DialRegister r c) = Some r"
| "task_ref (DialReset r) = Some r"

fun background :: "task \<Rightarrow> bool" where
  "background (DialStart r) = True"
| "background (DialRecheck r) = True"
| "background (Dialing r) = True"
| "background (DialRegister r c) = True"
| "background (DialReset r) = True"
| "background _ = False"

fun past_recheck :: "task \<Rightarrow> bool" where
  "past_recheck (Dialing r) = True"
| "past_recheck (DialRegister r c) = True"
| "past_recheck _ = False"

definition pool_inv :: "config \<Rightarrow> bool" where
  "pool_inv cfg =
     (case cfg of (p, th) \<Rightarrow>
        (\<forall>r. 0 < maxConnsPerHost p \<longrightarrow> int (length (conns (heap p r))) \<le> maxConnsPerHost p) \<and>
        (\<forall>t. background (th t) \<longrightarrow> maxConnsPerHost p \<le> 0 \<or> 2 \<le> maxConnsPerHost p) \<and>
        (\<forall>t r. past_recheck (th t) \<and> task_ref (th t) = Some r \<longrightarrow>
                int (length (conns (heap p r))) < maxConnsPerHost p) \<and>
        (\<forall>t t' r. inflight (th t) r \<and> inflight (th t') r \<longrightarrow> t = t') \<and>
        (\<forall>t r. inflight (th t) r \<longrightarrow> dialing (heap p r) \<noteq> 0) \<and>
        (\<forall>t r. task_ref (th t) = Some r \<longrightarrow> r < nextRef p) \<and>
        (\<forall>a r. groups p a = Some r \<longrightarrow> r < nextRef p))"

text \<open>
  The representation a group and the registry have when the operations run one
  at a time: the connections of a group are distinct and the index map gives each
  its position (it may hold further entries); a registered group carries the
  destination it is registered under; and the pool's map sends a connection to a
  destination exactly when the group registered there lists it.
\<close>

definition group_ok :: "clientConnGroup \<Rightarrow> bool" where
  "group_ok g =
     (distinct (conns g) \<and> (\<forall>i < length (conns g). keys g (conns g ! i) = Some (int i)))"

definition registry_ok :: "clientConnPool \<Rightarrow> bool" where
  "registry_ok p =
     ((\<forall>a r. groups p a = Some r \<longrightarrow>
          r < nextRef p \<and> addr (heap p r) = a \<and> group_ok (heap p r)) \<and>
      (\<forall>c a. (pkeys p c = Some a) = (\<exists>r. groups p a = Some r \<and> c \<in> set (conns (heap p r)))))"

text \<open>
  Example states: the pool after the first request to a destination was served by
  connection 7, the same pool after connection 7 was reported dead, and the pool
  after a second connection 8 was registered in the group.
\<close>

definition ex_addr :: string where
  "ex_addr = ''example.com:443''"

definition ex_pool :: "int \<Rightarrow> clientConnPool" where
  "ex_pool mc =
     snd (snd (GetClientConn (\<lambda>a. Inr 7) (\<lambda>c. True) ex_addr (Transport_init mc False)))"

definition ex_dead :: "int \<Rightarrow> clientConnPool" where
  "ex_dead mc = (case MarkDead 7 (ex_pool mc) of Inr p \<Rightarrow> p | Inl err \<Rightarrow> ex_pool mc)"

definition ex_pool2 :: "int \<Rightarrow> clientConnPool" where
  "ex_pool2 mc = addClientConn 0 8 (ex_pool mc)"

text \<open>
  A race, with a cap of 2: a second request starts the background dial
  (\<open>ex_second\<close>), the dial acquires the flag (\<open>ex_dialing\<close>), connection 7 is
  reported dead, which empties the group and deletes it from the registry
  (\<open>ex_retired\<close>), and then the dial registers its connection 8 and resets the
  flag (\<open>ex_leak\<close>).
\<close>

definition ex_second :: clientConnPool where
  "ex_second = snd (snd (GetClientConn (\<lambda>a. Inr 9) (\<lambda>c. True) ex_addr (ex_pool 2)))"

definition ex_dialing :: clientConnPool where
  "ex_dialing = (case dial_cas 0 ex_second of Some p \<Rightarrow> p | None \<Rightarrow> ex_second)"

definition ex_retired :: clientConnPool where
  "ex_retired = (case MarkDead 7 ex_dialing of Inr p \<Rightarrow> p | Inl err \<Rightarrow> ex_dialing)"

definition ex_leak :: clientConnPool where
  "ex_leak = dial_reset 0 (addClientConn 0 8 ex_retired)"

section \<open>Evaluation of the examples\<close>

lemmas ex_defs =
  ex_addr_def ex_pool_def ex_dead_def ex_pool2_def ex_second_def ex_dialing_def ex_retired_def
  ex_leak_def dial_cas_def dial_reset_def dial_atCapacity_def GetClientConn_def GetClientConn_group_def
  getClientConn_def Transport_init_def newGroup_def addClientConn_def MarkDead_def
  MarkDead_lookup_def MarkDead_remove_def removeClientConn_def

declare getClientConn_loop.simps [simp del]

section \<open>The factory's negotiation check\<close>

lemma dialTLSWithContext_error:
  "dialTLSWithContext e n a cfg = Inl err \<Longrightarrow> \<exists>x. err = External x"
  by (auto simp: dialTLSWithContext_def split: sum.splits option.splits if_splits)

text \<open>
  Claim C8. The factory returns the negotiation error exactly when no custom dial
  function is configured, the internal TLS dial succeeded and the negotiated
  protocol differs from \<open>h2\<close>. With a custom dial function the outcome is the
  function's connection handed to the engine, and it does not depend on any
  negotiated protocol.
\<close>

theorem dialClientConn_negotiation_error:
  "((dialClientConn e t a = Inl (UnexpectedALPN proto want)) =
      (want = NextProtoTLS \<and> proto \<noteq> NextProtoTLS \<and> DialTLS t = None \<and>
       (\<exists>host port tc. SplitHostPort e a = Inr (host, port) \<and>
          dialTLSWithContext e ''tcp'' a (newTLSConfig t host) = Inr tc \<and>
          NegotiatedProtocol e tc = proto))) \<and>
   (DialTLS t = Some f \<longrightarrow>
      dialClientConn e t a =
        (case SplitHostPort e a of
           Inl err \<Rightarrow> Inl (External err)
         | Inr (host, port) \<Rightarrow>
             (case f ''tcp'' a (newTLSConfig t host) of
                Inl err \<Rightarrow> Inl (External err)
              | Inr c \<Rightarrow>
                  (case NewClientConn t c of
                     Inl err \<Rightarrow> Inl (External err) | Inr cc \<Rightarrow> Inr cc))) \<and>
      dialClientConn (e\<lparr>NegotiatedProtocol := np\<rparr>) t a = dialClientConn e t a)"
  by (auto simp: dialClientConn_def
      split: sum.splits option.splits if_splits prod.splits dest: dialTLSWithContext_error)

theorem dialClientConn_negotiation_error_witness:
  "dialClientConn
     \<lparr>SplitHostPort = (\<lambda>a. Inr (''example.com'', ''443'')), DialContext = (\<lambda>n a cfg. Inr 3),
      Handshake = (\<lambda>tc. None), VerifyHostname = (\<lambda>tc h. None),
      NegotiatedProtocol = (\<lambda>tc. ''http/1.1'')\<rparr>
     \<lparr>DialTLS = None, TLSClientConfig = None, NewClientConn = (\<lambda>c. Inr 7)\<rparr> ex_addr
     = Inl (UnexpectedALPN ''http/1.1'' ''h2'') \<and>
   dialClientConn
     \<lparr>SplitHostPort = (\<lambda>a. Inr (''example.com'', ''443'')), DialContext = (\<lambda>n a cfg. Inr 3),
      Handshake = (\<lambda>tc. None), VerifyHostname = (\<lambda>tc h. None),
      NegotiatedProtocol = (\<lambda>tc. ''http/1.1'')\<rparr>
     \<lparr>DialTLS = Some (\<lambda>n a cfg. Inr 4), TLSClientConfig = None, NewClientConn = (\<lambda>c. Inr 7)\<rparr> ex_addr
     = Inr 7"
  using dialClientConn_negotiation_error
    [of "\<lparr>SplitHostPort = (\<lambda>a. Inr (''example.com'', ''443'')), DialContext = (\<lambda>n a cfg. Inr 3),
      Handshake = (\<lambda>tc. None), VerifyHostname = (\<lambda>tc h. None),
      NegotiatedProtocol = (\<lambda>tc. ''http/1.1'')\<rparr>"
     "\<lparr>DialTLS = None, TLSClientConfig = None, NewClientConn = (\<lambda>c. Inr 7)\<rparr>"
     ex_addr "''http/1.1''" "''h2''"]
    dialClientConn_negotiation_error
    [of "\<lparr>SplitHostPort = (\<lambda>a. Inr (''example.com'', ''443'')), DialContext = (\<lambda>n a cfg. Inr 3),
      Handshake = (\<lambda>tc. None), VerifyHostname = (\<lambda>tc h. None),
      NegotiatedProtocol = (\<lambda>tc. ''http/1.1'')\<rparr>"
     "\<lparr>DialTLS = Some (\<lambda>n a cfg. Inr 4), TLSClientConfig = None, NewClientConn = (\<lambda>c. Inr 7)\<rparr>"
     ex_addr "''http/1.1''" "''h2''" "\<lambda>n a cfg. Inr 4"]
  by (simp add: dialTLSWithContext_def newTLSConfig_def NextProtoTLS_def ex_addr_def)

section \<open>Retirement is idempotent\<close>

lemma MarkDead_pkeys:
  "MarkDead c p = Inr p' \<Longrightarrow> pkeys p' c = None"
  by (auto simp: MarkDead_def MarkDead_lookup_def MarkDead_remove_def Let_def
      split: option.splits sum.splits if_splits prod.splits)

lemma MarkDead_unknown_id:
  "pkeys p c = None \<Longrightarrow> MarkDead c p = Inr p"
  by (simp add: MarkDead_def MarkDead_lookup_def)

text \<open>
  Claim C4. After \<^verbatim>\<open>MarkDead(c)\<close> has returned, a second \<^verbatim>\<open>MarkDead(c)\<close> returns
  without a panic and leaves the whole state as it is; from any state, calling it
  twice is calling it once.
\<close>

theorem MarkDead_idempotent:
  "(MarkDead c p = Inr p' \<longrightarrow> MarkDead c p' = Inr p') \<and>
   (case MarkDead c p of Inl err \<Rightarrow> Inl err | Inr p1 \<Rightarrow> MarkDead c p1) = MarkDead c p"
  by (auto simp: MarkDead_pkeys MarkDead_unknown_id split: sum.splits)

theorem MarkDead_idempotent_witness:
  "MarkDead 7 (ex_pool 2) = Inr (ex_dead 2) \<and> pkeys (ex_pool 2) 7 = Some ex_addr \<and>
   pkeys (ex_dead 2) 7 = None \<and> MarkDead 7 (ex_dead 2) = Inr (ex_dead 2)"
proof -
  have h: "MarkDead 7 (ex_pool 2) = Inr (ex_dead 2)" by (simp add: ex_defs)
  have k: "pkeys (ex_pool 2) 7 = Some ex_addr" "pkeys (ex_dead 2) 7 = None"
    by (simp_all add: ex_defs)
  from MarkDead_idempotent [of 7 "ex_pool 2" "ex_dead 2"] h k show ?thesis by blast
qed

section \<open>The retry loop\<close>



lemma loop_done:
  "\<not> retry < length (conns g) \<Longrightarrow>
   getClientConn_loop retry g can = (Inl (NoAvailableConnection (addr g)), g)"
  by (simp add: getClientConn_loop.simps [of retry g can])

lemma loop_fields:
  "conns (snd (getClientConn_loop retry g can)) = conns g \<and>
   addr (snd (getClientConn_loop retry g can)) = addr g \<and>
   keys (snd (getClientConn_loop retry g can)) = keys g \<and>
   dialing (snd (getClientConn_loop retry g can)) = dialing g"
proof (induction "length (conns g) - retry" arbitrary: retry g)
  case 0
  then have "\<not> retry < length (conns g)" by simp
  from loop_done [OF this, of can] show ?case by simp
next
  case (Suc n)
  let ?g = "g\<lparr>connIdx := connIdx g + 1\<rparr>"
  have lt: "retry < length (conns g)" using Suc.hyps(2) by simp
  have "n = length (conns ?g) - (retry + 1)" using Suc.hyps(2) by simp
  from Suc.hyps(1) [OF this]
  have ih: "conns (snd (getClientConn_loop (retry + 1) ?g can)) = conns g \<and>
            addr (snd (getClientConn_loop (retry + 1) ?g can)) = addr g \<and>
            keys (snd (getClientConn_loop (retry + 1) ?g can)) = keys g \<and>
            dialing (snd (getClientConn_loop (retry + 1) ?g can)) = dialing g"
    by simp
  show ?case
    using lt ih by (simp add: getClientConn_loop.simps [of retry g can] Let_def)
qed






lemma getClientConn_nonempty:
  "conns (heap p r) \<noteq> [] \<Longrightarrow>
   getClientConn dial can r p =
     (fst (getClientConn_loop 0 (heap p r) can),
      maxConnsPerHost p \<le> 0 \<or> maxConnsPerHost p > int (length (conns (heap p r))),
      p\<lparr>heap := (heap p)(r := snd (getClientConn_loop 0 (heap p r) can))\<rparr>)"
  by (simp add: getClientConn_def Let_def split: prod.splits)



text \<open>
  The condition on the cursor is needed. At the largest value the increment wraps
  to the smallest one, the remainder is negative and the index expression panics.
\<close>

lemma getClientConn_loop_wrap:
  "fst (getClientConn_loop 0
          \<lparr>addr = ex_addr, connIdx = 9223372036854775807, conns = [7, 8, 9],
           keys = [7 \<mapsto> 0, 8 \<mapsto> 1, 9 \<mapsto> 2], dialing = 0\<rparr> (\<lambda>c. True)) = Inl Panic"
  by (simp add: getClientConn_loop.simps signed_modulo_int_def)

section \<open>Round-robin selection\<close>











section \<open>Removal of the last element\<close>

lemma removeClientConn_last:
  "keys g c = Some (int (length (conns g)) - 1) \<Longrightarrow> conns g \<noteq> [] \<Longrightarrow>
   removeClientConn g c = Inr (g\<lparr>conns := take (length (conns g) - 1) (conns g)\<rparr>)"
  by (simp add: removeClientConn_def Let_def nat_diff_distrib')

text \<open>
  Claim C10, evaluated on the code: an empty group, \<^verbatim>\<open>addClientConn(7)\<close>, then
  \<^verbatim>\<open>removeClientConn(7)\<close>. The branch for the last element truncates the slice and
  keeps the entry of the removed connection in the group's index map.
\<close>

theorem removeClientConn_last_keeps_entry:
  "conns (heap (addClientConn 0 7 (snd (GetClientConn_group ex_addr (Transport_init 0 False)))) 0) = [7] \<and>
   (case removeClientConn
           (heap (addClientConn 0 7 (snd (GetClientConn_group ex_addr (Transport_init 0 False)))) 0) 7 of
      Inl err \<Rightarrow> False
    | Inr g' \<Rightarrow> conns g' = [] \<and> keys g' 7 = Some 0)"
  by (simp add: ex_defs)

section \<open>The re-check of the background dial\<close>

lemma dial_atCapacity_no_cap:
  "maxConnsPerHost p \<le> 0 \<Longrightarrow> dial_atCapacity r p"
  by (simp add: dial_atCapacity_def)

text \<open>
  Claim C2, evaluated on the code: no cap (\<open>maxConnsPerHost = 0\<close>), one live
  connection, the flag free, a dial that would succeed. \<^verbatim>\<open>getClientConn\<close> executes
  the \<^verbatim>\<open>go\<close> statement, the compare-and-swap succeeds, the re-check
  \<^verbatim>\<open>len(g.conns) >= g.p.maxConnsPerHost\<close> holds, and nothing is registered.
\<close>

theorem background_dial_aborts_without_cap:
  "maxConnsPerHost (ex_pool 0) = 0 \<and> conns (heap (ex_pool 0) 0) = [7] \<and>
   dialing (heap (ex_pool 0) 0) = 0 \<and>
   fst (snd (getClientConn (\<lambda>a. Inr 8) (\<lambda>c. True) 0 (ex_pool 0))) \<and>
   dial_cas 0 (ex_pool 0) \<noteq> None \<and>
   dial_atCapacity 0 (the (dial_cas 0 (ex_pool 0))) \<and>
   conns (heap (group_dialClientConn (\<lambda>a. Inr 8) 0 (ex_pool 0)) 0) = [7] \<and>
   pkeys (group_dialClientConn (\<lambda>a. Inr 8) 0 (ex_pool 0)) 8 = None"
  by (simp add: ex_defs getClientConn_loop.simps signed_modulo_int_def group_dialClientConn_def)

section \<open>The group after its last connection is retired\<close>

text \<open>
  Claim C5. When \<^verbatim>\<open>MarkDead\<close> leaves the group of the connection's destination
  empty, the destination has no group in the registry any more. The next
  \<^verbatim>\<open>GetClientConn\<close> for it (keep-alives enabled) creates a new group and returns
  what the synchronous dial returns; a successful dial registers that one
  connection in the new group and in the pool's map.
\<close>

theorem MarkDead_last_then_GetClientConn:
  assumes "pkeys p c = Some a" "groups p a = Some r" "\<not> disableKeepAlives p"
    and "MarkDead c p = Inr p1" "conns (heap p1 r) = []"
  shows "groups p1 a = None \<and>
         GetClientConn dial can a p1 =
           (let r' = nextRef p1;
                pn = p1\<lparr>heap := (heap p1)(r' := newGroup a), nextRef := Suc r',
                        groups := (groups p1)(a \<mapsto> r')\<rparr>
            in case dial a of
                 Inl err \<Rightarrow> (Inl err, False, pn)
               | Inr c' \<Rightarrow> (Inr c', False, addClientConn r' c' pn)) \<and>
         (\<forall>c'. dial a = Inr c' \<longrightarrow>
            (case GetClientConn dial can a p1 of
               (res, spawn, p2) \<Rightarrow>
                 res = Inr c' \<and> groups p2 a = Some (nextRef p1) \<and>
                 conns (heap p2 (nextRef p1)) = [c'] \<and>
                 pkeys p2 = (pkeys p1)(c' \<mapsto> a)))"
proof -
  have g: "groups p1 a = None" and d: "\<not> disableKeepAlives p1"
    using assms
    by (auto simp: MarkDead_def MarkDead_lookup_def MarkDead_remove_def Let_def
        split: sum.splits if_splits)
  show ?thesis
    using g d
    by (auto simp: GetClientConn_def GetClientConn_group_def getClientConn_def newGroup_def
        addClientConn_def Let_def split: sum.splits)
qed

theorem MarkDead_last_then_GetClientConn_witness:
  "pkeys (ex_pool 2) 7 = Some ex_addr \<and> groups (ex_pool 2) ex_addr = Some 0 \<and>
   \<not> disableKeepAlives (ex_pool 2) \<and> MarkDead 7 (ex_pool 2) = Inr (ex_dead 2) \<and>
   conns (heap (ex_pool 2) 0) = [7] \<and> conns (heap (ex_dead 2) 0) = [] \<and>
   groups (ex_dead 2) ex_addr = None \<and>
   fst (GetClientConn (\<lambda>a. Inr 8) (\<lambda>c. True) ex_addr (ex_dead 2)) = Inr 8 \<and>
   conns (heap (snd (snd (GetClientConn (\<lambda>a. Inr 8) (\<lambda>c. True) ex_addr (ex_dead 2)))) 1) = [8]"
proof -
  have a: "pkeys (ex_pool 2) 7 = Some ex_addr" by (simp add: ex_defs)
  have b: "groups (ex_pool 2) ex_addr = Some 0" by (simp add: ex_defs)
  have c: "\<not> disableKeepAlives (ex_pool 2)" by (simp add: ex_defs)
  have d: "MarkDead 7 (ex_pool 2) = Inr (ex_dead 2)" by (simp add: ex_defs)
  have e: "conns (heap (ex_dead 2) 0) = []" by (simp add: ex_defs)
  have f: "conns (heap (ex_pool 2) 0) = [7]" by (simp add: ex_defs)
  have n: "nextRef (ex_dead 2) = 1" by (simp add: ex_defs)
  from MarkDead_last_then_GetClientConn [OF a b c d e, where dial = "\<lambda>a. Inr 8" and can = "\<lambda>c. True"]
  have "groups (ex_dead 2) ex_addr = None \<and>
   fst (GetClientConn (\<lambda>a. Inr 8) (\<lambda>c. True) ex_addr (ex_dead 2)) = Inr 8 \<and>
   conns (heap (snd (snd (GetClientConn (\<lambda>a. Inr 8) (\<lambda>c. True) ex_addr (ex_dead 2)))) 1) = [8]"
    by (cases "GetClientConn (\<lambda>a. Inr 8) (\<lambda>c. True) ex_addr (ex_dead 2)") (simp add: n)
  with a b c d e f show ?thesis by simp
qed

section \<open>The invariant of the concurrent executions\<close>

lemma removeClientConn_shrinks:
  "removeClientConn g c = Inr g' \<Longrightarrow>
   length (conns g') \<le> length (conns g) \<and> dialing g' = dialing g \<and> addr g' = addr g"
  by (auto simp: removeClientConn_def Let_def split: option.splits if_splits)

lemma GetClientConn_group_effect:
  assumes "GetClientConn_group a p = (r, p')"
  shows "maxConnsPerHost p' = maxConnsPerHost p"
    "nextRef p \<le> nextRef p'"
    "\<forall>b q. groups p b = Some q \<longrightarrow> q < nextRef p \<Longrightarrow> r < nextRef p'"
    "\<forall>b q. groups p b = Some q \<longrightarrow> q < nextRef p \<Longrightarrow>
       \<forall>b q. groups p' b = Some q \<longrightarrow> q < nextRef p'"
    "q < nextRef p \<Longrightarrow> heap p' q = heap p q"
    "length (conns (heap p' q)) \<le> length (conns (heap p q))"
  using assms
  by (auto simp: GetClientConn_group_def newGroup_def less_Suc_eq split: option.splits if_splits)

lemma getClientConn_effect:
  assumes "getClientConn dial can r p = (res, sp, p')"
  shows "maxConnsPerHost p' = maxConnsPerHost p"
    "nextRef p' = nextRef p"
    "groups p' = groups p"
    "q \<noteq> r \<Longrightarrow> heap p' q = heap p q"
    "dialing (heap p' q) = dialing (heap p q)"
    "length (conns (heap p' q)) =
       (if q = r \<and> conns (heap p r) = [] \<and> \<not> isl (dial (addr (heap p r))) then 1
        else length (conns (heap p q)))"
    "sp \<Longrightarrow> conns (heap p r) \<noteq> [] \<and>
       (maxConnsPerHost p \<le> 0 \<or> int (length (conns (heap p r))) < maxConnsPerHost p)"
proof -
  note f = loop_fields [of 0 "heap p r" can]
  have "maxConnsPerHost p' = maxConnsPerHost p \<and> nextRef p' = nextRef p \<and> groups p' = groups p \<and>
    (q \<noteq> r \<longrightarrow> heap p' q = heap p q) \<and> dialing (heap p' q) = dialing (heap p q) \<and>
    length (conns (heap p' q)) =
       (if q = r \<and> conns (heap p r) = [] \<and> \<not> isl (dial (addr (heap p r))) then 1
        else length (conns (heap p q))) \<and>
    (sp \<longrightarrow> conns (heap p r) \<noteq> [] \<and>
       (maxConnsPerHost p \<le> 0 \<or> int (length (conns (heap p r))) < maxConnsPerHost p))"
  proof (cases "conns (heap p r) = []")
    case True
    show ?thesis
    proof (cases "dial (addr (heap p r))")
      case (Inl err)
      with True assms have "p' = p" "\<not> sp" by (simp_all add: getClientConn_def)
      with True Inl show ?thesis by simp
    next
      case (Inr c)
      with True assms have "p' = addClientConn r c p" "\<not> sp" by (simp_all add: getClientConn_def)
      with True Inr show ?thesis by (simp add: addClientConn_def Let_def)
    qed
  next
    case False
    with assms f show ?thesis
      by (auto simp: getClientConn_nonempty)
  qed
  then show "maxConnsPerHost p' = maxConnsPerHost p"
    "nextRef p' = nextRef p"
    "groups p' = groups p"
    "q \<noteq> r \<Longrightarrow> heap p' q = heap p q"
    "dialing (heap p' q) = dialing (heap p q)"
    "length (conns (heap p' q)) =
       (if q = r \<and> conns (heap p r) = [] \<and> \<not> isl (dial (addr (heap p r))) then 1
        else length (conns (heap p q)))"
    "sp \<Longrightarrow> conns (heap p r) \<noteq> [] \<and>
       (maxConnsPerHost p \<le> 0 \<or> int (length (conns (heap p r))) < maxConnsPerHost p)"
    by blast+
qed

lemma MarkDead_lookup_effect:
  assumes "MarkDead_lookup c p = (res, p')"
  shows "maxConnsPerHost p' = maxConnsPerHost p" "nextRef p' = nextRef p"
    "groups p' = groups p" "heap p' = heap p"
    "res = Some (r, a) \<Longrightarrow> groups p a = Some r"
  using assms
  by (auto simp: MarkDead_lookup_def Let_def split: option.splits)

lemma MarkDead_remove_effect:
  assumes "MarkDead_remove r a c p = Inr p'"
  shows "maxConnsPerHost p' = maxConnsPerHost p" "nextRef p' = nextRef p"
    "groups p' b = Some q \<Longrightarrow> groups p b = Some q"
    "dialing (heap p' q) = dialing (heap p q)"
    "length (conns (heap p' q)) \<le> length (conns (heap p q))"
  using assms removeClientConn_shrinks [of "heap p r" c]
  by (auto simp: MarkDead_remove_def Let_def split: sum.splits if_splits)

lemma inflight_ref: "inflight tk r \<Longrightarrow> task_ref tk = Some r \<and> background tk"
  by (cases tk) auto

lemma past_recheck_inflight: "past_recheck tk \<Longrightarrow> task_ref tk = Some r \<Longrightarrow> inflight tk r"
  by (cases tk) auto

lemma pool_invD:
  assumes "pool_inv (p, th)"
  shows "0 < maxConnsPerHost p \<Longrightarrow> int (length (conns (heap p r))) \<le> maxConnsPerHost p"
    and "background (th t) \<Longrightarrow> maxConnsPerHost p \<le> 0 \<or> 2 \<le> maxConnsPerHost p"
    and "past_recheck (th t) \<Longrightarrow> task_ref (th t) = Some r \<Longrightarrow>
           int (length (conns (heap p r))) < maxConnsPerHost p"
    and "inflight (th t) r \<Longrightarrow> inflight (th t') r \<Longrightarrow> t = t'"
    and "inflight (th t) r \<Longrightarrow> dialing (heap p r) \<noteq> 0"
    and "task_ref (th t) = Some r \<Longrightarrow> r < nextRef p"
    and "groups p a = Some r \<Longrightarrow> r < nextRef p"
  using assms unfolding pool_inv_def by blast+

lemma pool_invI:
  assumes "\<And>r. 0 < maxConnsPerHost p \<Longrightarrow> int (length (conns (heap p r))) \<le> maxConnsPerHost p"
    and "\<And>t. background (th t) \<Longrightarrow> maxConnsPerHost p \<le> 0 \<or> 2 \<le> maxConnsPerHost p"
    and "\<And>t r. past_recheck (th t) \<Longrightarrow> task_ref (th t) = Some r \<Longrightarrow>
           int (length (conns (heap p r))) < maxConnsPerHost p"
    and "\<And>t t' r. inflight (th t) r \<Longrightarrow> inflight (th t') r \<Longrightarrow> t = t'"
    and "\<And>t r. inflight (th t) r \<Longrightarrow> dialing (heap p r) \<noteq> 0"
    and "\<And>t r. task_ref (th t) = Some r \<Longrightarrow> r < nextRef p"
    and "\<And>a r. groups p a = Some r \<Longrightarrow> r < nextRef p"
  shows "pool_inv (p, th)"
  unfolding pool_inv_def using assms by (simp only: prod.case) blast

lemma pool_inv_update:
  assumes inv: "pool_inv (p, th)"
    and mx: "maxConnsPerHost p' = maxConnsPerHost p"
    and gr: "\<And>b q. groups p' b = Some q \<Longrightarrow> q < nextRef p'"
    and nr: "nextRef p \<le> nextRef p'"
    and cap: "\<And>q. 0 < maxConnsPerHost p \<Longrightarrow> int (length (conns (heap p' q))) \<le> maxConnsPerHost p"
    and below: "\<And>u q. u \<noteq> t \<Longrightarrow> past_recheck (th u) \<Longrightarrow> task_ref (th u) = Some q \<Longrightarrow>
                  int (length (conns (heap p' q))) < maxConnsPerHost p"
    and flag: "\<And>u q. u \<noteq> t \<Longrightarrow> inflight (th u) q \<Longrightarrow> dialing (heap p' q) \<noteq> 0"
    and x_bg: "background x \<Longrightarrow> maxConnsPerHost p \<le> 0 \<or> 2 \<le> maxConnsPerHost p"
    and x_below: "\<And>q. past_recheck x \<Longrightarrow> task_ref x = Some q \<Longrightarrow>
                  int (length (conns (heap p' q))) < maxConnsPerHost p"
    and x_single: "\<And>u q. inflight x q \<Longrightarrow> u \<noteq> t \<Longrightarrow> \<not> inflight (th u) q"
    and x_flag: "\<And>q. inflight x q \<Longrightarrow> dialing (heap p' q) \<noteq> 0"
    and x_ref: "\<And>q. task_ref x = Some q \<Longrightarrow> q < nextRef p'"
  shows "pool_inv (p', th(t := x))"
proof (rule pool_invI)
  fix r assume "0 < maxConnsPerHost p'"
  then show "int (length (conns (heap p' r))) \<le> maxConnsPerHost p'"
    using cap [of r] mx by simp
next
  fix u assume "background ((th(t := x)) u)"
  then show "maxConnsPerHost p' \<le> 0 \<or> 2 \<le> maxConnsPerHost p'"
    using x_bg pool_invD(2) [OF inv, of u] mx by (cases "u = t") auto
next
  fix u r assume "past_recheck ((th(t := x)) u)" "task_ref ((th(t := x)) u) = Some r"
  then show "int (length (conns (heap p' r))) < maxConnsPerHost p'"
    using x_below [of r] below [of u r] mx by (cases "u = t") auto
next
  fix u u' r assume "inflight ((th(t := x)) u) r" "inflight ((th(t := x)) u') r"
  then show "u = u'"
    using x_single [of r u] x_single [of r u'] pool_invD(4) [OF inv, of u r u']
    by (cases "u = t"; cases "u' = t") auto
next
  fix u r assume "inflight ((th(t := x)) u) r"
  then show "dialing (heap p' r) \<noteq> 0"
    using x_flag [of r] flag [of u r] by (cases "u = t") auto
next
  fix u r assume "task_ref ((th(t := x)) u) = Some r"
  then show "r < nextRef p'"
    using x_ref [of r] pool_invD(6) [OF inv, of u r] nr by (cases "u = t") auto
next
  fix a r assume "groups p' a = Some r"
  then show "r < nextRef p'" by (rule gr)
qed

lemma pool_inv_same:
  assumes "pool_inv (p, th)" "maxConnsPerHost p' = maxConnsPerHost p" "heap p' = heap p"
    "nextRef p' = nextRef p" "groups p' = groups p"
  shows "pool_inv (p', th)"
  using assms by (simp add: pool_inv_def)

lemma pool_inv_task:
  assumes inv: "pool_inv (p, th)"
    and x_bg: "background x \<Longrightarrow> maxConnsPerHost p \<le> 0 \<or> 2 \<le> maxConnsPerHost p"
    and x_below: "\<And>q. past_recheck x \<Longrightarrow> task_ref x = Some q \<Longrightarrow>
                  int (length (conns (heap p q))) < maxConnsPerHost p"
    and x_single: "\<And>u q. inflight x q \<Longrightarrow> u \<noteq> t \<Longrightarrow> \<not> inflight (th u) q"
    and x_flag: "\<And>q. inflight x q \<Longrightarrow> dialing (heap p q) \<noteq> 0"
    and x_ref: "\<And>q. task_ref x = Some q \<Longrightarrow> q < nextRef p"
  shows "pool_inv (p, th(t := x))"
proof (rule pool_inv_update [OF inv refl])
  show "\<And>b q. groups p b = Some q \<Longrightarrow> q < nextRef p" by (rule pool_invD(7) [OF inv])
  show "nextRef p \<le> nextRef p" by simp
  show "\<And>q. 0 < maxConnsPerHost p \<Longrightarrow> int (length (conns (heap p q))) \<le> maxConnsPerHost p"
    by (rule pool_invD(1) [OF inv])
  show "\<And>u q. u \<noteq> t \<Longrightarrow> past_recheck (th u) \<Longrightarrow> task_ref (th u) = Some q \<Longrightarrow>
                  int (length (conns (heap p q))) < maxConnsPerHost p"
    by (rule pool_invD(3) [OF inv])
  show "\<And>u q. u \<noteq> t \<Longrightarrow> inflight (th u) q \<Longrightarrow> dialing (heap p q) \<noteq> 0"
    by (rule pool_invD(5) [OF inv])
qed (use x_bg x_below x_single x_flag x_ref in blast)+

lemma pool_inv_idle: "pool_inv (p, th) \<Longrightarrow> pool_inv (p, th(t := Idle))"
  by (rule pool_inv_task) simp_all

lemma pool_inv_GetClientConn_enter:
  assumes inv: "pool_inv (p, th)" and g: "GetClientConn_group a p = (r, p')"
  shows "pool_inv (p', th(t := GetConn r))"
proof -
  note e = GetClientConn_group_effect [OF g]
  have i7: "\<forall>b q. groups p b = Some q \<longrightarrow> q < nextRef p"
    using pool_invD(7) [OF inv] by blast
  have len: "int (length (conns (heap p' q))) \<le> int (length (conns (heap p q)))" for q
    using e(6) [of q] by simp
  show ?thesis
  proof (rule pool_inv_update [OF inv e(1)])
    show "\<And>b q. groups p' b = Some q \<Longrightarrow> q < nextRef p'" using e(4) [OF i7] by blast
    show "nextRef p \<le> nextRef p'" by (rule e(2))
    show "\<And>q. 0 < maxConnsPerHost p \<Longrightarrow> int (length (conns (heap p' q))) \<le> maxConnsPerHost p"
      using pool_invD(1) [OF inv] len by (meson order_trans)
    show "\<And>u q. u \<noteq> t \<Longrightarrow> past_recheck (th u) \<Longrightarrow> task_ref (th u) = Some q \<Longrightarrow>
                  int (length (conns (heap p' q))) < maxConnsPerHost p"
      using pool_invD(3) [OF inv] len by (meson le_less_trans)
    show "\<And>u q. u \<noteq> t \<Longrightarrow> inflight (th u) q \<Longrightarrow> dialing (heap p' q) \<noteq> 0"
    proof -
      fix u q assume "inflight (th u) q"
      then have "q < nextRef p" "dialing (heap p q) \<noteq> 0"
        using pool_invD(6) [OF inv, of u q] pool_invD(5) [OF inv, of u q] inflight_ref by auto
      then show "dialing (heap p' q) \<noteq> 0" using e(5) [of q] by simp
    qed
    show "\<And>q. task_ref (GetConn r) = Some q \<Longrightarrow> q < nextRef p'" using e(3) [OF i7] by simp
  qed simp_all
qed

lemma pool_inv_getClientConn:
  assumes inv: "pool_inv (p, th)" and g: "getClientConn dial can r p = (res, sp, p')"
  shows "pool_inv (p', th(t := Idle))"
proof -
  note e = getClientConn_effect [OF g]
  show ?thesis
  proof (rule pool_inv_update [OF inv e(1)])
    show "\<And>b q. groups p' b = Some q \<Longrightarrow> q < nextRef p'"
      using pool_invD(7) [OF inv] by (simp add: e(2,3))
    show "nextRef p \<le> nextRef p'" by (simp add: e(2))
    show "\<And>q. 0 < maxConnsPerHost p \<Longrightarrow> int (length (conns (heap p' q))) \<le> maxConnsPerHost p"
      using pool_invD(1) [OF inv] by (simp add: e(6))
    show "\<And>u q. u \<noteq> t \<Longrightarrow> past_recheck (th u) \<Longrightarrow> task_ref (th u) = Some q \<Longrightarrow>
                  int (length (conns (heap p' q))) < maxConnsPerHost p"
    proof -
      fix u q assume a: "past_recheck (th u)" "task_ref (th u) = Some q"
      then have old: "int (length (conns (heap p q))) < maxConnsPerHost p"
        by (rule pool_invD(3) [OF inv])
      have "background (th u)" using a past_recheck_inflight inflight_ref by blast
      then have "maxConnsPerHost p \<le> 0 \<or> 2 \<le> maxConnsPerHost p"
        by (rule pool_invD(2) [OF inv])
      with old show "int (length (conns (heap p' q))) < maxConnsPerHost p"
        by (auto simp: e(6))
    qed
    show "\<And>u q. u \<noteq> t \<Longrightarrow> inflight (th u) q \<Longrightarrow> dialing (heap p' q) \<noteq> 0"
      using pool_invD(5) [OF inv] by (simp add: e(5))
  qed simp_all
qed

lemma pool_inv_getClientConn_go:
  assumes inv: "pool_inv (p, th)" and t: "th t = GetConn r"
    and g: "getClientConn dial can r p = (res, True, p')"
  shows "pool_inv (p', th(t := Idle, t' := DialStart r))"
proof -
  note e = getClientConn_effect [OF g]
  have 1: "pool_inv (p', th(t := Idle))" by (rule pool_inv_getClientConn [OF inv g])
  have "conns (heap p r) \<noteq> []"
    "maxConnsPerHost p \<le> 0 \<or> int (length (conns (heap p r))) < maxConnsPerHost p"
    using e(7) by simp_all
  moreover from this(1) have "1 \<le> int (length (conns (heap p r)))"
    by (cases "conns (heap p r)") simp_all
  ultimately have bg: "maxConnsPerHost p' \<le> 0 \<or> 2 \<le> maxConnsPerHost p'"
    unfolding e(1) by linarith
  have "r < nextRef p" using pool_invD(6) [OF inv, of t r] t by simp
  then have ref: "r < nextRef p'" by (simp add: e(2))
  show ?thesis
    by (rule pool_inv_task [OF 1]) (use bg ref in simp_all)
qed

lemma pool_inv_MarkDead_lookup:
  assumes inv: "pool_inv (p, th)" and l: "MarkDead_lookup c p = (res, p')"
  shows "pool_inv (p', th)"
    and "res = Some (r, a) \<Longrightarrow> pool_inv (p', th(t := MarkDeadRemove r a c))"
proof -
  note e = MarkDead_lookup_effect [OF l]
  show 1: "pool_inv (p', th)" by (rule pool_inv_same [OF inv e(1) e(4) e(2) e(3)])
  assume "res = Some (r, a)"
  then have "groups p a = Some r" by (rule e(5))
  then have "r < nextRef p'" using pool_invD(7) [OF inv] e(2) by simp
  then show "pool_inv (p', th(t := MarkDeadRemove r a c))"
    by (intro pool_inv_task [OF 1]) simp_all
qed

lemma pool_inv_MarkDead_remove:
  assumes inv: "pool_inv (p, th)" and m: "MarkDead_remove r a c p = Inr p'"
  shows "pool_inv (p', th(t := Idle))"
proof -
  note e = MarkDead_remove_effect [OF m]
  have len: "int (length (conns (heap p' q))) \<le> int (length (conns (heap p q)))" for q
    using e(5) [of q] by simp
  show ?thesis
  proof (rule pool_inv_update [OF inv e(1)])
    show "\<And>b q. groups p' b = Some q \<Longrightarrow> q < nextRef p'"
      using pool_invD(7) [OF inv] e(3) unfolding e(2) by blast
    show "nextRef p \<le> nextRef p'" by (simp add: e(2))
    show "\<And>q. 0 < maxConnsPerHost p \<Longrightarrow> int (length (conns (heap p' q))) \<le> maxConnsPerHost p"
      using pool_invD(1) [OF inv] len by (meson order_trans)
    show "\<And>u q. u \<noteq> t \<Longrightarrow> past_recheck (th u) \<Longrightarrow> task_ref (th u) = Some q \<Longrightarrow>
                  int (length (conns (heap p' q))) < maxConnsPerHost p"
      using pool_invD(3) [OF inv] len by (meson le_less_trans)
    show "\<And>u q. u \<noteq> t \<Longrightarrow> inflight (th u) q \<Longrightarrow> dialing (heap p' q) \<noteq> 0"
      using pool_invD(5) [OF inv] by (simp add: e(4))
  qed simp_all
qed

lemma pool_inv_dial_cas:
  assumes inv: "pool_inv (p, th)" and t: "th t = DialStart r" and c: "dial_cas r p = Some p'"
  shows "pool_inv (p', th(t := DialRecheck r))"
proof -
  from c have free: "dialing (heap p r) = 0"
    and p': "p' = p\<lparr>heap := (heap p)(r := (heap p r)\<lparr>dialing := 1\<rparr>)\<rparr>"
    by (auto simp: dial_cas_def split: if_splits)
  have none: "\<not> inflight (th u) r" for u using pool_invD(5) [OF inv, of u r] free by blast
  show ?thesis
  proof (rule pool_inv_update [OF inv])
    show "maxConnsPerHost p' = maxConnsPerHost p" by (simp add: p')
    show "\<And>b q. groups p' b = Some q \<Longrightarrow> q < nextRef p'"
      using pool_invD(7) [OF inv] by (simp add: p')
    show "nextRef p \<le> nextRef p'" by (simp add: p')
    show "\<And>q. 0 < maxConnsPerHost p \<Longrightarrow> int (length (conns (heap p' q))) \<le> maxConnsPerHost p"
      using pool_invD(1) [OF inv] by (simp add: p')
    show "\<And>u q. u \<noteq> t \<Longrightarrow> past_recheck (th u) \<Longrightarrow> task_ref (th u) = Some q \<Longrightarrow>
                  int (length (conns (heap p' q))) < maxConnsPerHost p"
      using pool_invD(3) [OF inv] by (simp add: p')
    show "\<And>u q. u \<noteq> t \<Longrightarrow> inflight (th u) q \<Longrightarrow> dialing (heap p' q) \<noteq> 0"
      using pool_invD(5) [OF inv] by (simp add: p')
    show "background (DialRecheck r) \<Longrightarrow> maxConnsPerHost p \<le> 0 \<or> 2 \<le> maxConnsPerHost p"
      using pool_invD(2) [OF inv, of t] t by simp
    show "\<And>u q. inflight (DialRecheck r) q \<Longrightarrow> u \<noteq> t \<Longrightarrow> \<not> inflight (th u) q"
      using none by simp
    show "\<And>q. inflight (DialRecheck r) q \<Longrightarrow> dialing (heap p' q) \<noteq> 0" by (simp add: p')
    show "\<And>q. task_ref (DialRecheck r) = Some q \<Longrightarrow> q < nextRef p'"
      using pool_invD(6) [OF inv, of t r] t by (simp add: p')
  qed simp_all
qed

lemma pool_inv_holder:
  assumes inv: "pool_inv (p, th)" and t: "inflight (th t) r"
    and x: "task_ref x = Some r" "background x"
    and b: "past_recheck x \<Longrightarrow> int (length (conns (heap p r))) < maxConnsPerHost p"
  shows "pool_inv (p, th(t := x))"
proof (rule pool_inv_task [OF inv])
  show "background x \<Longrightarrow> maxConnsPerHost p \<le> 0 \<or> 2 \<le> maxConnsPerHost p"
    using pool_invD(2) [OF inv, of t] inflight_ref [OF t] by simp
next
  fix q assume "past_recheck x" "task_ref x = Some q"
  then show "int (length (conns (heap p q))) < maxConnsPerHost p"
    using b x(1) by simp
next
  fix u q assume a: "inflight x q" "u \<noteq> t"
  from a(1) have "q = r" using inflight_ref [of x q] x(1) by simp
  show "\<not> inflight (th u) q"
  proof
    assume "inflight (th u) q"
    then have "u = t" using t pool_invD(4) [OF inv, of u r t] \<open>q = r\<close> by simp
    with a(2) show False by simp
  qed
next
  fix q assume "inflight x q"
  then have "q = r" using inflight_ref [of x q] x(1) by simp
  then show "dialing (heap p q) \<noteq> 0" using pool_invD(5) [OF inv t] by simp
next
  fix q assume "task_ref x = Some q"
  then have "q = r" using x(1) by simp
  then show "q < nextRef p"
    using pool_invD(6) [OF inv, of t r] inflight_ref [OF t] by simp
qed

lemma pool_inv_register:
  assumes inv: "pool_inv (p, th)" and t: "th t = DialRegister r c"
  shows "pool_inv (addClientConn r c p, th(t := DialReset r))"
proof -
  let ?p = "addClientConn r c p"
  have tf: "inflight (th t) r" using t by simp
  have below: "int (length (conns (heap p r))) < maxConnsPerHost p"
    using pool_invD(3) [OF inv, of t r] t by simp
  have len: "length (conns (heap ?p q)) = (if q = r then Suc (length (conns (heap p r)))
     else length (conns (heap p q)))" for q
    by (simp add: addClientConn_def Let_def)
  have dl: "dialing (heap ?p q) = dialing (heap p q)" for q
    by (simp add: addClientConn_def Let_def)
  show ?thesis
  proof (rule pool_inv_update [OF inv])
    show "maxConnsPerHost ?p = maxConnsPerHost p" by (simp add: addClientConn_def Let_def)
    show "\<And>b q. groups ?p b = Some q \<Longrightarrow> q < nextRef ?p"
      using pool_invD(7) [OF inv] by (simp add: addClientConn_def Let_def)
    show "nextRef p \<le> nextRef ?p" by (simp add: addClientConn_def Let_def)
    show "\<And>q. 0 < maxConnsPerHost p \<Longrightarrow> int (length (conns (heap ?p q))) \<le> maxConnsPerHost p"
      using pool_invD(1) [OF inv] below by (simp add: len)
    show "\<And>u q. u \<noteq> t \<Longrightarrow> past_recheck (th u) \<Longrightarrow> task_ref (th u) = Some q \<Longrightarrow>
                  int (length (conns (heap ?p q))) < maxConnsPerHost p"
    proof -
      fix u q assume a: "u \<noteq> t" "past_recheck (th u)" "task_ref (th u) = Some q"
      then have "inflight (th u) q" using past_recheck_inflight by blast
      with a(1) tf have "q \<noteq> r" using pool_invD(4) [OF inv, of u r t] by blast
      then show "int (length (conns (heap ?p q))) < maxConnsPerHost p"
        using pool_invD(3) [OF inv a(2,3)] by (simp add: len)
    qed
    show "\<And>u q. u \<noteq> t \<Longrightarrow> inflight (th u) q \<Longrightarrow> dialing (heap ?p q) \<noteq> 0"
      using pool_invD(5) [OF inv] by (simp add: dl)
    show "background (DialReset r) \<Longrightarrow> maxConnsPerHost p \<le> 0 \<or> 2 \<le> maxConnsPerHost p"
      using pool_invD(2) [OF inv, of t] t by simp
    show "\<And>u q. inflight (DialReset r) q \<Longrightarrow> u \<noteq> t \<Longrightarrow> \<not> inflight (th u) q"
    proof -
      fix u q assume a: "inflight (DialReset r) q" "u \<noteq> t"
      then have "q = r" by simp
      show "\<not> inflight (th u) q"
      proof
        assume "inflight (th u) q"
        then have "u = t" using tf pool_invD(4) [OF inv, of u r t] \<open>q = r\<close> by simp
        with a(2) show False by simp
      qed
    qed
    show "\<And>q. inflight (DialReset r) q \<Longrightarrow> dialing (heap ?p q) \<noteq> 0"
      using pool_invD(5) [OF inv tf] by (simp add: dl)
    show "\<And>q. task_ref (DialReset r) = Some q \<Longrightarrow> q < nextRef ?p"
      using pool_invD(6) [OF inv, of t r] t by (simp add: addClientConn_def Let_def)
  qed simp_all
qed

lemma pool_inv_reset:
  assumes inv: "pool_inv (p, th)" and t: "th t = DialReset r"
  shows "pool_inv (dial_reset r p, th(t := Idle))"
proof -
  let ?p = "dial_reset r p"
  have tf: "inflight (th t) r" using t by simp
  show ?thesis
  proof (rule pool_inv_update [OF inv])
    show "maxConnsPerHost ?p = maxConnsPerHost p" by (simp add: dial_reset_def)
    show "\<And>b q. groups ?p b = Some q \<Longrightarrow> q < nextRef ?p"
      using pool_invD(7) [OF inv] by (simp add: dial_reset_def)
    show "nextRef p \<le> nextRef ?p" by (simp add: dial_reset_def)
    show "\<And>q. 0 < maxConnsPerHost p \<Longrightarrow> int (length (conns (heap ?p q))) \<le> maxConnsPerHost p"
      using pool_invD(1) [OF inv] by (simp add: dial_reset_def)
    show "\<And>u q. u \<noteq> t \<Longrightarrow> past_recheck (th u) \<Longrightarrow> task_ref (th u) = Some q \<Longrightarrow>
                  int (length (conns (heap ?p q))) < maxConnsPerHost p"
      using pool_invD(3) [OF inv] by (simp add: dial_reset_def)
    show "\<And>u q. u \<noteq> t \<Longrightarrow> inflight (th u) q \<Longrightarrow> dialing (heap ?p q) \<noteq> 0"
    proof -
      fix u q assume a: "u \<noteq> t" "inflight (th u) q"
      with tf have "q \<noteq> r" using pool_invD(4) [OF inv, of u r t] by blast
      then show "dialing (heap ?p q) \<noteq> 0"
        using pool_invD(5) [OF inv a(2)] by (simp add: dial_reset_def)
    qed
  qed simp_all
qed

lemma pool_inv_step:
  "step cfg cfg' \<Longrightarrow> pool_inv cfg \<Longrightarrow> pool_inv cfg'"
proof (induction rule: step.induct)
  case (GetClientConn_enter th t p a r p')
  then show ?case by (simp add: pool_inv_GetClientConn_enter)
next
  case (getClientConn_return th t r dial p can res p')
  then show ?case using pool_inv_getClientConn by blast
next
  case (getClientConn_go th t r dial p can res p' t')
  then show ?case using pool_inv_getClientConn_go by blast
next
  case (MarkDead_unknown th t c p p')
  then show ?case using pool_inv_MarkDead_lookup(1) by blast
next
  case (MarkDead_enter th t c p r a p')
  then show ?case using pool_inv_MarkDead_lookup(2) by blast
next
  case (MarkDead_return th t r a c p p')
  then show ?case using pool_inv_MarkDead_remove by blast
next
  case (MarkDead_panic th t r a c p err)
  then show ?case by (simp add: pool_inv_idle)
next
  case (dial_cas_won th t r p p')
  then show ?case by (simp add: pool_inv_dial_cas)
next
  case (dial_cas_lost th t r p)
  then show ?case by (simp add: pool_inv_idle)
next
  case (dial_abort th t r p)
  then show ?case by (intro pool_inv_holder [where r = r]) simp_all
next
  case (dial_proceed th t r p)
  then show ?case by (intro pool_inv_holder [where r = r]) (simp_all add: dial_atCapacity_def)
next
  case (dial_failed th t r p)
  then show ?case by (intro pool_inv_holder [where r = r]) simp_all
next
  case (dial_succeeded th t r c p)
  then have "int (length (conns (heap p r))) < maxConnsPerHost p"
    using pool_invD(3) [of p th t r] by simp
  with dial_succeeded show ?case by (intro pool_inv_holder [where r = r]) simp_all
next
  case (dial_register th t r c p)
  then show ?case by (simp add: pool_inv_register)
next
  case (dial_done th t r p)
  then show ?case by (simp add: pool_inv_reset)
qed

lemma pool_inv_init: "pool_inv (Transport_init mc dka, (\<lambda>t. Idle))"
  by (simp add: pool_inv_def Transport_init_def newGroup_def)

lemma reachable_pool_inv: "reachable cfg \<Longrightarrow> pool_inv cfg"
  by (induction rule: reachable.induct) (auto intro: pool_inv_init pool_inv_step)

section \<open>Example executions\<close>

lemmas run_defs = ex_defs getClientConn_loop.simps signed_modulo_int_def fresh_def Let_def

lemma reach_first_enter:
  "reachable (snd (GetClientConn_group ex_addr (Transport_init 2 False)), (\<lambda>t. Idle)(0 := GetConn 0))"
proof -
  have "step (Transport_init 2 False, (\<lambda>t. Idle))
     (snd (GetClientConn_group ex_addr (Transport_init 2 False)), (\<lambda>t. Idle)(0 := GetConn 0))"
    by (rule GetClientConn_enter [where t = 0 and a = ex_addr and r = 0]) (simp_all add: run_defs)
  with reachable_init show ?thesis by (rule reachable_step)
qed

lemma reach_ex_pool: "reachable (ex_pool 2, (\<lambda>t. Idle))"
proof -
  let ?p = "snd (GetClientConn_group ex_addr (Transport_init 2 False))"
  let ?th = "(\<lambda>t. Idle)(0 := GetConn 0) :: nat \<Rightarrow> task"
  have "step (?p, ?th) (ex_pool 2, ?th(0 := Idle))"
    by (rule getClientConn_return
        [where dial = "\<lambda>a. Inr 7" and can = "\<lambda>c. True" and res = "Inr 7" and r = 0 and t = 0])
      (simp_all add: run_defs)
  with reach_first_enter have 1: "reachable (ex_pool 2, ?th(0 := Idle))"
    by (rule reachable_step)
  have eq: "?th(0 := Idle) = (\<lambda>t. Idle)" by (simp add: fun_eq_iff)
  from 1 show ?thesis unfolding eq .
qed

lemma reach_second_enter: "reachable (ex_pool 2, (\<lambda>t. Idle)(0 := GetConn 0))"
proof -
  have "step (ex_pool 2, (\<lambda>t. Idle)) (ex_pool 2, (\<lambda>t. Idle)(0 := GetConn 0))"
    by (rule GetClientConn_enter [where a = ex_addr and t = 0 and r = 0]) (simp_all add: run_defs)
  with reach_ex_pool show ?thesis by (rule reachable_step)
qed

lemma reach_ex_second: "reachable (ex_second, (\<lambda>t. Idle)(1 := DialStart 0))"
proof -
  let ?th = "(\<lambda>t. Idle)(0 := GetConn 0) :: nat \<Rightarrow> task"
  have "step (ex_pool 2, ?th) (ex_second, ?th(0 := Idle, 1 := DialStart 0))"
    by (rule getClientConn_go
        [where dial = "\<lambda>a. Inr 9" and can = "\<lambda>c. True" and res = "Inr 7" and r = 0 and t = 0
           and t' = 1])
      (simp_all add: run_defs)
  with reach_second_enter
  have 1: "reachable (ex_second, ?th(0 := Idle, 1 := DialStart 0))"
    by (rule reachable_step)
  have eq: "?th(0 := Idle, 1 := DialStart 0) = (\<lambda>t. Idle)(1 := DialStart 0)"
    by (simp add: fun_eq_iff)
  from 1 show ?thesis unfolding eq .
qed

lemma reach_ex_dialing: "reachable (ex_dialing, (\<lambda>t. Idle)(1 := Dialing 0))"
proof -
  let ?th = "(\<lambda>t. Idle)(1 := DialStart 0) :: nat \<Rightarrow> task"
  have "step (ex_second, ?th) (ex_dialing, ?th(1 := DialRecheck 0))"
    by (rule dial_cas_won [where t = 1 and r = 0]) (simp_all add: run_defs)
  with reach_ex_second
  have 1: "reachable (ex_dialing, ?th(1 := DialRecheck 0))"
    by (rule reachable_step)
  have "step (ex_dialing, ?th(1 := DialRecheck 0))
     (ex_dialing, (?th(1 := DialRecheck 0))(1 := Dialing 0))"
    by (rule dial_proceed [where t = 1 and r = 0]) (simp_all add: run_defs)
  with 1 have 2: "reachable (ex_dialing, (?th(1 := DialRecheck 0))(1 := Dialing 0))"
    by (rule reachable_step)
  have eq: "(?th(1 := DialRecheck 0))(1 := Dialing 0) = (\<lambda>t. Idle)(1 := Dialing 0)"
    by (simp add: fun_eq_iff)
  from 2 show ?thesis unfolding eq .
qed

lemma reach_ex_retired: "reachable (ex_retired, (\<lambda>t. Idle)(1 := Dialing 0))"
proof -
  let ?th = "(\<lambda>t. Idle)(1 := Dialing 0) :: nat \<Rightarrow> task"
  let ?p = "snd (MarkDead_lookup 7 ex_dialing)"
  have "step (ex_dialing, ?th) (?p, ?th(0 := MarkDeadRemove 0 ex_addr 7))"
    by (rule MarkDead_enter [where c = 7 and t = 0]) (simp_all add: run_defs)
  with reach_ex_dialing have 1: "reachable (?p, ?th(0 := MarkDeadRemove 0 ex_addr 7))"
    by (rule reachable_step)
  have "step (?p, ?th(0 := MarkDeadRemove 0 ex_addr 7))
     (ex_retired, (?th(0 := MarkDeadRemove 0 ex_addr 7))(0 := Idle))"
    by (rule MarkDead_return [where r = 0 and a = ex_addr and c = 7 and t = 0])
      (simp_all add: run_defs)
  with 1 have 2: "reachable (ex_retired, (?th(0 := MarkDeadRemove 0 ex_addr 7))(0 := Idle))"
    by (rule reachable_step)
  have eq: "(?th(0 := MarkDeadRemove 0 ex_addr 7))(0 := Idle) = ?th"
    by (simp add: fun_eq_iff)
  from 2 show ?thesis unfolding eq .
qed

lemma reach_ex_leak: "reachable (ex_leak, (\<lambda>t. Idle))"
proof -
  let ?th = "(\<lambda>t. Idle)(1 := Dialing 0) :: nat \<Rightarrow> task"
  have "step (ex_retired, ?th) (ex_retired, ?th(1 := DialRegister 0 8))"
    by (rule dial_succeeded [where t = 1 and r = 0]) (simp_all add: run_defs)
  with reach_ex_retired have 1: "reachable (ex_retired, ?th(1 := DialRegister 0 8))"
    by (rule reachable_step)
  have "step (ex_retired, ?th(1 := DialRegister 0 8))
     (addClientConn 0 8 ex_retired, (?th(1 := DialRegister 0 8))(1 := DialReset 0))"
    by (rule dial_register [where t = 1]) simp
  with 1 have 2: "reachable (addClientConn 0 8 ex_retired, (?th(1 := DialRegister 0 8))(1 := DialReset 0))"
    by (rule reachable_step)
  have "step (addClientConn 0 8 ex_retired, (?th(1 := DialRegister 0 8))(1 := DialReset 0))
     (dial_reset 0 (addClientConn 0 8 ex_retired),
      ((?th(1 := DialRegister 0 8))(1 := DialReset 0))(1 := Idle))"
    by (rule dial_done [where t = 1]) simp
  with 2 have 3: "reachable (dial_reset 0 (addClientConn 0 8 ex_retired),
      ((?th(1 := DialRegister 0 8))(1 := DialReset 0))(1 := Idle))"
    by (rule reachable_step)
  have eq: "((?th(1 := DialRegister 0 8))(1 := DialReset 0))(1 := Idle) = (\<lambda>t. Idle)"
    by (simp add: fun_eq_iff)
  from 3 show ?thesis unfolding eq ex_leak_def .
qed

section \<open>The per-host cap\<close>

lemma group_dialClientConn_cap:
  assumes "\<forall>q. int (length (conns (heap p q))) \<le> maxConnsPerHost p"
  shows "int (length (conns (heap (group_dialClientConn dial g p) r))) \<le> maxConnsPerHost p"
  using assms
  by (auto simp: group_dialClientConn_def dial_cas_def dial_atCapacity_def dial_reset_def
      addClientConn_def Let_def split: option.splits sum.splits if_splits)

lemma getClientConn_cap:
  assumes "0 < maxConnsPerHost p" "\<forall>q. int (length (conns (heap p q))) \<le> maxConnsPerHost p"
  shows "int (length (conns (heap (snd (snd (getClientConn dial can g p))) r))) \<le> maxConnsPerHost p"
proof -
  obtain res sp p' where g: "getClientConn dial can g p = (res, sp, p')"
    by (cases "getClientConn dial can g p") auto
  from getClientConn_effect(6) [OF g, of r] assms show ?thesis by (auto simp: g)
qed

lemma MarkDead_cap:
  assumes "\<forall>q. int (length (conns (heap p q))) \<le> maxConnsPerHost p" "MarkDead c p = Inr p'"
  shows "int (length (conns (heap p' r))) \<le> maxConnsPerHost p"
proof (cases "MarkDead_lookup c p")
  case (Pair res p1)
  note e = MarkDead_lookup_effect [OF Pair]
  show ?thesis
  proof (cases res)
    case None
    with Pair assms(2) have "p' = p1" by (simp add: MarkDead_def)
    with assms(1) [rule_format, of r] show ?thesis by (simp add: e(4))
  next
    case (Some ra)
    obtain g a where "ra = (g, a)" by (cases ra)
    with Some Pair assms(2) have m: "MarkDead_remove g a c p1 = Inr p'" by (simp add: MarkDead_def)
    have "length (conns (heap p' r)) \<le> length (conns (heap p1 r))"
      by (rule MarkDead_remove_effect(5) [OF m])
    with assms(1) [rule_format, of r] show ?thesis by (simp add: e(4))
  qed
qed

text \<open>
  Claim C1. With a positive cap, every group of every reachable state of the
  concurrent executions has at most \<open>maxConnsPerHost\<close> connections. The bound is
  also kept by each operation run on its own: \<^verbatim>\<open>getClientConn\<close> with its
  synchronous dial, the background dial, and \<^verbatim>\<open>MarkDead\<close>.
\<close>

theorem cap_invariant:
  assumes "0 < maxConnsPerHost p"
  shows "(reachable (p, th) \<longrightarrow> int (length (conns (heap p r))) \<le> maxConnsPerHost p) \<and>
    ((\<forall>q. int (length (conns (heap p q))) \<le> maxConnsPerHost p) \<longrightarrow>
       int (length (conns (heap (snd (snd (getClientConn dial can g p))) r))) \<le> maxConnsPerHost p \<and>
       int (length (conns (heap (group_dialClientConn dial g p) r))) \<le> maxConnsPerHost p \<and>
       (\<forall>p'. MarkDead c p = Inr p' \<longrightarrow> int (length (conns (heap p' r))) \<le> maxConnsPerHost p))"
proof (intro conjI impI allI)
  assume "reachable (p, th)"
  then have "pool_inv (p, th)" by (rule reachable_pool_inv)
  from pool_invD(1) [OF this assms] show "int (length (conns (heap p r))) \<le> maxConnsPerHost p" .
next
  assume a: "\<forall>q. int (length (conns (heap p q))) \<le> maxConnsPerHost p"
  show "int (length (conns (heap (snd (snd (getClientConn dial can g p))) r))) \<le> maxConnsPerHost p"
    by (rule getClientConn_cap [OF assms a])
  show "int (length (conns (heap (group_dialClientConn dial g p) r))) \<le> maxConnsPerHost p"
    by (rule group_dialClientConn_cap [OF a])
  fix p' assume "MarkDead c p = Inr p'"
  with a show "int (length (conns (heap p' r))) \<le> maxConnsPerHost p" by (rule MarkDead_cap)
qed

theorem cap_invariant_witness:
  "0 < maxConnsPerHost ex_leak \<and> reachable (ex_leak, (\<lambda>t. Idle)) \<and>
   conns (heap ex_leak 0) = [8] \<and> maxConnsPerHost ex_leak = 2 \<and>
   int (length (conns (heap ex_leak 0))) \<le> maxConnsPerHost ex_leak"
proof -
  have a: "0 < maxConnsPerHost ex_leak" by (simp add: run_defs)
  have b: "conns (heap ex_leak 0) = [8]" "maxConnsPerHost ex_leak = 2" by (simp_all add: run_defs)
  from cap_invariant [OF a, of "\<lambda>t. Idle" 0] reach_ex_leak
  have "int (length (conns (heap ex_leak 0))) \<le> maxConnsPerHost ex_leak" by blast
  with a b reach_ex_leak show ?thesis by blast
qed

section \<open>Single-flight dialing\<close>

lemma dial_cas_lost_id: "dial_cas r p = None \<Longrightarrow> group_dialClientConn dial r p = p"
  by (simp add: group_dialClientConn_def)

lemma step_cas_lost:
  assumes "step (p, th) (p', th')" "th t = DialStart r" "dial_cas r p = None" "th' t \<noteq> th t"
  shows "p' = p \<and> th' t = Idle"
  using assms
  by (cases rule: step.cases) (auto split: if_splits)

text \<open>
  Claim C9. In every reachable state at most one background dial per group is
  between its successful compare-and-swap and its deferred store, and the flag is
  set while one is. A background dial that finds the flag set changes nothing:
  the method is the identity on the state, and the step of the losing thread
  leaves the pool as it is and ends the thread.
\<close>

theorem single_flight:
  assumes "reachable (p, th)"
  shows "(inflight (th t) r \<and> inflight (th t') r \<longrightarrow> t = t') \<and>
    (inflight (th t) r \<longrightarrow> dialing (heap p r) \<noteq> 0) \<and>
    (dial_cas r p = None \<longrightarrow> group_dialClientConn dial r p = p) \<and>
    (th t = DialStart r \<and> dial_cas r p = None \<and> step (p, th) (p', th') \<and> th' t \<noteq> th t \<longrightarrow>
       p' = p \<and> th' t = Idle)"
proof -
  from assms have inv: "pool_inv (p, th)" by (rule reachable_pool_inv)
  show ?thesis
    using pool_invD(4) [OF inv, of t r t'] pool_invD(5) [OF inv, of t r]
      dial_cas_lost_id [of r p dial] step_cas_lost [of p th p' th' t r]
    by blast
qed

theorem single_flight_witness:
  "reachable (ex_dialing, (\<lambda>t. Idle)(1 := Dialing 0)) \<and>
   inflight (((\<lambda>t. Idle)(1 := Dialing 0)) (1::nat)) 0 \<and>
   dialing (heap ex_dialing 0) \<noteq> 0 \<and> dial_cas 0 ex_dialing = None \<and>
   group_dialClientConn (\<lambda>a. Inr 9) 0 ex_dialing = ex_dialing"
proof -
  have a: "inflight (((\<lambda>t. Idle)(1 := Dialing 0)) (1::nat)) 0" by simp
  have b: "dial_cas 0 ex_dialing = None" by (simp add: run_defs)
  from single_flight [OF reach_ex_dialing, of 1 0 1 "\<lambda>a. Inr 9"] a b
  have "dialing (heap ex_dialing 0) \<noteq> 0 \<and>
    group_dialClientConn (\<lambda>a. Inr 9) 0 ex_dialing = ex_dialing" by blast
  with reach_ex_dialing a b show ?thesis by blast
qed

section \<open>The registry when the operations run one at a time\<close>

text \<open>
  Swap-with-last removes exactly the given connection and keeps the positions
  recorded for the others; registration of a new connection in a registered
  group, \<^verbatim>\<open>MarkDead\<close>, \<^verbatim>\<open>GetClientConn\<close> and a background dial on a registered
  group each keep \<open>registry_ok\<close>, and \<^verbatim>\<open>MarkDead\<close> does not panic there.
\<close>

lemma group_ok_key:
  "group_ok g \<Longrightarrow> c \<in> set (conns g) \<Longrightarrow>
   \<exists>i < length (conns g). conns g ! i = c \<and> keys g c = Some (int i)"
  by (auto simp: group_ok_def in_set_conv_nth)

lemma removeClientConn_member:
  assumes ok: "group_ok g" and mem: "c \<in> set (conns g)"
  shows "\<exists>g'. removeClientConn g c = Inr g' \<and> group_ok g' \<and>
           set (conns g') = set (conns g) - {c} \<and> addr g' = addr g \<and> dialing g' = dialing g"
proof -
  let ?n = "length (conns g)"
  from group_ok_key [OF ok mem] obtain i where
    i: "i < ?n" "conns g ! i = c" "keys g c = Some (int i)" by blast
  have d: "distinct (conns g)" and k: "\<And>j. j < ?n \<Longrightarrow> keys g (conns g ! j) = Some (int j)"
    using ok by (auto simp: group_ok_def)
  have n: "0 < ?n" using i(1) by linarith
  show ?thesis
  proof (cases "i = ?n - 1")
    case True
    let ?g = "g\<lparr>conns := take (?n - 1) (conns g)\<rparr>"
    have r: "removeClientConn g c = Inr ?g"
      using i(3) True n by (simp add: removeClientConn_def Let_def nat_diff_distrib')
    have bl: "take (?n - 1) (conns g) = butlast (conns g)" by (simp add: butlast_conv_take)
    have ne: "conns g \<noteq> []" using n by simp
    have cl: "c = last (conns g)" using i(2) True ne by (simp add: last_conv_nth)
    have app: "conns g = butlast (conns g) @ [c]" using ne cl by simp
    have "distinct (butlast (conns g) @ [c])" using d app by simp
    then have notin: "c \<notin> set (butlast (conns g))" and db: "distinct (butlast (conns g))" by simp_all
    have "set (conns g) = insert c (set (butlast (conns g)))"
      by (subst app) simp
    then have s: "set (butlast (conns g)) = set (conns g) - {c}" using notin by auto
    have "group_ok ?g"
      unfolding group_ok_def
    proof (intro conjI allI impI)
      show "distinct (conns ?g)" using d by simp
      fix j assume "j < length (conns ?g)"
      then have j: "j < ?n - 1" by simp
      then have "conns ?g ! j = conns g ! j" by simp
      moreover have "keys ?g = keys g" by simp
      ultimately show "keys ?g (conns ?g ! j) = Some (int j)" using k [of j] j by simp
    qed
    moreover have "set (conns ?g) = set (conns g) - {c}" using s unfolding bl [symmetric] by simp
    ultimately show ?thesis using r by auto
  next
    case False
    let ?l = "conns g ! (?n - 1)"
    let ?cs = "take (?n - 1) ((conns g)[i := ?l])"
    let ?g = "g\<lparr>conns := ?cs, keys := ((keys g)(?l \<mapsto> int i))(c := None)\<rparr>"
    have il: "i < ?n - 1" using i(1) False by linarith
    have r: "removeClientConn g c = Inr ?g"
      using i(3) False i(1) n
      by (simp add: removeClientConn_def Let_def nat_diff_distrib')
    have lc: "?l \<noteq> c" using d i(1,2) il n by (auto simp: nth_eq_iff_index_eq)
    have len: "length ?cs = ?n - 1" by simp
    have nth: "?cs ! j = (if j = i then ?l else conns g ! j)" if "j < ?n - 1" for j
      using that by (simp add: nth_list_update)
    have key: "keys ?g (?cs ! j) = Some (int j)" if "j < ?n - 1" for j
    proof (cases "j = i")
      case True
      then show ?thesis using that lc by (simp add: nth)
    next
      case False
      have 1: "conns g ! j \<noteq> c" using d i(1,2) False that by (auto simp: nth_eq_iff_index_eq)
      have 2: "conns g ! j \<noteq> ?l" using d that n by (auto simp: nth_eq_iff_index_eq)
      show ?thesis using that False 1 2 k [of j] by (simp add: nth)
    qed
    have mem': "x \<in> set ?cs \<longleftrightarrow> x \<in> set (conns g) \<and> x \<noteq> c" for x
    proof
      assume "x \<in> set ?cs"
      then obtain j where j: "j < ?n - 1" "?cs ! j = x"
        unfolding in_set_conv_nth len by blast
      show "x \<in> set (conns g) \<and> x \<noteq> c"
      proof (cases "j = i")
        case True
        then show ?thesis using j lc n by (auto simp: nth)
      next
        case False
        then have "x = conns g ! j" using j by (simp add: nth)
        moreover have "conns g ! j \<noteq> c" using d i(1,2) False j(1) by (auto simp: nth_eq_iff_index_eq)
        ultimately show ?thesis using j(1) by simp
      qed
    next
      assume a: "x \<in> set (conns g) \<and> x \<noteq> c"
      then obtain j where j: "j < ?n" "conns g ! j = x" by (auto simp: in_set_conv_nth)
      have ji: "j \<noteq> i" using a j i(2) by auto
      show "x \<in> set ?cs"
      proof (cases "j = ?n - 1")
        case True
        then have "?cs ! i = x" using il j by (simp add: nth)
        then show ?thesis using il len by (metis nth_mem)
      next
        case False
        then have jl: "j < ?n - 1" using j(1) by linarith
        then have "?cs ! j = x" using ji j by (simp add: nth)
        then show ?thesis using jl len by (metis nth_mem)
      qed
    qed
    have dist: "distinct ?cs"
      unfolding distinct_conv_nth len
    proof (intro allI impI)
      fix a b assume ab: "a < ?n - 1" "b < ?n - 1" "a \<noteq> b"
      have ka: "keys ?g (?cs ! a) = Some (int a)" by (rule key [OF ab(1)])
      have kb: "keys ?g (?cs ! b) = Some (int b)" by (rule key [OF ab(2)])
      show "?cs ! a \<noteq> ?cs ! b"
      proof
        assume "?cs ! a = ?cs ! b"
        with ka kb have "int a = int b" by (metis option.inject)
        with ab(3) show False by simp
      qed
    qed
    have "group_ok ?g"
      unfolding group_ok_def using dist key by simp
    moreover have "set (conns ?g) = set (conns g) - {c}" using mem' by auto
    ultimately show ?thesis using r by auto
  qed
qed

lemma registry_okD:
  assumes "registry_ok p"
  shows "groups p a = Some r \<Longrightarrow> r < nextRef p"
    and "groups p a = Some r \<Longrightarrow> addr (heap p r) = a"
    and "groups p a = Some r \<Longrightarrow> group_ok (heap p r)"
    and "(pkeys p c = Some a) = (\<exists>r. groups p a = Some r \<and> c \<in> set (conns (heap p r)))"
  using assms unfolding registry_ok_def by blast+

lemma registry_okI:
  assumes "\<And>a r. groups p a = Some r \<Longrightarrow> r < nextRef p \<and> addr (heap p r) = a \<and> group_ok (heap p r)"
    and "\<And>c a. (pkeys p c = Some a) = (\<exists>r. groups p a = Some r \<and> c \<in> set (conns (heap p r)))"
  shows "registry_ok p"
  unfolding registry_ok_def using assms by blast

lemma registry_ok_inj:
  assumes ok: "registry_ok p" and "groups p a = Some r" "groups p b = Some r"
  shows "a = b"
  using registry_okD(2) [OF ok] assms(2,3) by blast

lemma registry_ok_init: "registry_ok (Transport_init mc dka)"
  by (simp add: registry_ok_def Transport_init_def)

lemma addClientConn_registry_ok:
  assumes ok: "registry_ok p" and g: "groups p a = Some r" and f: "pkeys p c = None"
  shows "registry_ok (addClientConn r c p)"
proof -
  let ?g = "heap p r"
  let ?g' = "?g\<lparr>keys := (keys ?g)(c \<mapsto> int (length (conns ?g))), conns := conns ?g @ [c]\<rparr>"
  let ?p = "addClientConn r c p"
  have p': "?p = p\<lparr>heap := (heap p)(r := ?g'), pkeys := (pkeys p)(c \<mapsto> a)\<rparr>"
    using registry_okD(2) [OF ok g] by (simp add: addClientConn_def Let_def)
  have notin: "c \<notin> set (conns (heap p q))" if "groups p b = Some q" for b q
    using registry_okD(4) [OF ok, of c b] f that by auto
  have gok: "group_ok ?g" by (rule registry_okD(3) [OF ok g])
  have gok': "group_ok ?g'"
    unfolding group_ok_def
  proof (intro conjI allI impI)
    show "distinct (conns ?g')" using gok notin [OF g] by (simp add: group_ok_def)
    fix i assume "i < length (conns ?g')"
    then consider "i < length (conns ?g)" | "i = length (conns ?g)" by fastforce
    then show "keys ?g' (conns ?g' ! i) = Some (int i)"
    proof cases
      case 1
      then have "conns ?g ! i \<noteq> c" using notin [OF g] by (metis nth_mem)
      with 1 gok show ?thesis by (simp add: group_ok_def nth_append)
    next
      case 2
      then show ?thesis by simp
    qed
  qed
  show ?thesis
  proof (rule registry_okI)
    fix b q assume b: "groups ?p b = Some q"
    then have b': "groups p b = Some q" by (simp add: p')
    show "q < nextRef ?p \<and> addr (heap ?p q) = b \<and> group_ok (heap ?p q)"
    proof (cases "q = r")
      case True
      then have "b = a" using registry_ok_inj [OF ok b'] g by simp
      with True gok' registry_okD(1) [OF ok g] registry_okD(2) [OF ok g] show ?thesis
        by (simp add: p')
    next
      case False
      with registry_okD(1-3) [OF ok b'] show ?thesis by (simp add: p')
    qed
  next
    fix x b
    show "(pkeys ?p x = Some b) = (\<exists>q. groups ?p b = Some q \<and> x \<in> set (conns (heap ?p q)))"
    proof (cases "x = c")
      case True
      have "(\<exists>q. groups p b = Some q \<and> c \<in> set (conns (heap ?p q))) = (b = a)"
      proof
        assume "\<exists>q. groups p b = Some q \<and> c \<in> set (conns (heap ?p q))"
        then obtain q where q: "groups p b = Some q" "c \<in> set (conns (heap ?p q))" by blast
        have "q = r" using q notin [OF q(1)] by (auto simp: p' split: if_splits)
        then show "b = a" using registry_ok_inj [OF ok q(1)] g by simp
      next
        assume "b = a"
        then show "\<exists>q. groups p b = Some q \<and> c \<in> set (conns (heap ?p q))"
          using g by (auto simp: p')
      qed
      with True show ?thesis by (auto simp: p')
    next
      case False
      have "(\<exists>q. groups p b = Some q \<and> x \<in> set (conns (heap ?p q))) =
            (\<exists>q. groups p b = Some q \<and> x \<in> set (conns (heap p q)))"
        using False by (auto simp: p')
      with False registry_okD(4) [OF ok, of x b] show ?thesis by (simp add: p')
    qed
  qed
qed

lemma MarkDead_effect:
  assumes "pkeys p c = Some a" "groups p a = Some r" "removeClientConn (heap p r) c = Inr g'"
  shows "\<exists>p'. MarkDead c p = Inr p' \<and> pkeys p' = (pkeys p)(c := None) \<and>
           heap p' = (heap p)(r := g') \<and> nextRef p' = nextRef p \<and>
           groups p' = (if conns g' = [] then (groups p)(a := None) else groups p)"
  using assms by (simp add: MarkDead_def MarkDead_lookup_def MarkDead_remove_def)

lemma MarkDead_registry_ok:
  assumes ok: "registry_ok p"
  shows "\<exists>p'. MarkDead c p = Inr p' \<and> registry_ok p'"
proof (cases "pkeys p c")
  case None
  then show ?thesis using ok by (simp add: MarkDead_def MarkDead_lookup_def)
next
  case (Some a)
  from registry_okD(4) [OF ok, of c a] Some obtain r where
    r: "groups p a = Some r" "c \<in> set (conns (heap p r))" by blast
  from removeClientConn_member [OF registry_okD(3) [OF ok r(1)] r(2)] obtain g' where
    g': "removeClientConn (heap p r) c = Inr g'" "group_ok g'"
        "set (conns g') = set (conns (heap p r)) - {c}" "addr g' = addr (heap p r)"
    by blast
  from MarkDead_effect [OF Some r(1) g'(1)] obtain p' where
    m: "MarkDead c p = Inr p'" and pk: "pkeys p' = (pkeys p)(c := None)"
    and hp: "heap p' = (heap p)(r := g')" and nr: "nextRef p' = nextRef p"
    and gr: "groups p' = (if conns g' = [] then (groups p)(a := None) else groups p)"
    by blast
  have sub: "groups p b = Some q" if "groups p' b = Some q" for b q
    using that unfolding gr by (auto split: if_splits)
  have keep: "groups p' b = Some q" if "groups p b = Some q" "b \<noteq> a \<or> conns g' \<noteq> []" for b q
    using that unfolding gr by auto
  have cs: "set (conns (heap p' q)) = (if q = r then set (conns (heap p r)) - {c}
     else set (conns (heap p q)))" for q
    unfolding hp using g'(3) by simp
  have other: "c \<notin> set (conns (heap p q))" if "groups p b = Some q" "q \<noteq> r" for b q
  proof
    assume "c \<in> set (conns (heap p q))"
    with that(1) have "pkeys p c = Some b" using registry_okD(4) [OF ok, of c b] by blast
    with Some have "b = a" by simp
    with that r(1) show False by simp
  qed
  have "registry_ok p'"
  proof (rule registry_okI)
    fix b q assume "groups p' b = Some q"
    then have b': "groups p b = Some q" by (rule sub)
    show "q < nextRef p' \<and> addr (heap p' q) = b \<and> group_ok (heap p' q)"
    proof (cases "q = r")
      case True
      then have "b = a" using registry_ok_inj [OF ok b'] r(1) by simp
      with True g'(2,4) registry_okD(1,2) [OF ok r(1)] show ?thesis by (simp add: hp nr)
    next
      case False
      with registry_okD(1-3) [OF ok b'] show ?thesis by (simp add: hp nr)
    qed
  next
    fix x b
    show "(pkeys p' x = Some b) = (\<exists>q. groups p' b = Some q \<and> x \<in> set (conns (heap p' q)))"
    proof (cases "x = c")
      case True
      have "\<not> (\<exists>q. groups p' b = Some q \<and> c \<in> set (conns (heap p' q)))"
      proof
        assume "\<exists>q. groups p' b = Some q \<and> c \<in> set (conns (heap p' q))"
        then obtain q where q: "groups p' b = Some q" "c \<in> set (conns (heap p' q))" by blast
        from q(1) have q': "groups p b = Some q" by (rule sub)
        show False
        proof (cases "q = r")
          case True
          with q(2) show False by (simp add: cs)
        next
          case False
          with q(2) other [OF q' False] show False by (simp add: cs)
        qed
      qed
      with True show ?thesis by (simp add: pk)
    next
      case False
      have "(\<exists>q. groups p' b = Some q \<and> x \<in> set (conns (heap p' q))) =
            (\<exists>q. groups p b = Some q \<and> x \<in> set (conns (heap p q)))"
      proof
        assume "\<exists>q. groups p' b = Some q \<and> x \<in> set (conns (heap p' q))"
        then obtain q where q: "groups p' b = Some q" "x \<in> set (conns (heap p' q))" by blast
        from q(1) have q': "groups p b = Some q" by (rule sub)
        have "x \<in> set (conns (heap p q))" using q(2) by (cases "q = r") (simp_all add: cs)
        with q' show "\<exists>q. groups p b = Some q \<and> x \<in> set (conns (heap p q))" by blast
      next
        assume "\<exists>q. groups p b = Some q \<and> x \<in> set (conns (heap p q))"
        then obtain q where q: "groups p b = Some q" "x \<in> set (conns (heap p q))" by blast
        have x': "x \<in> set (conns (heap p' q))" using q(2) False by (cases "q = r") (simp_all add: cs)
        have "b \<noteq> a \<or> conns g' \<noteq> []"
        proof (cases "q = r")
          case True
          then have "x \<in> set (conns g')" using x' by (simp add: hp)
          then show ?thesis by auto
        next
          case False
          then show ?thesis using q(1) r(1) by auto
        qed
        from keep [OF q(1) this] x' show "\<exists>q. groups p' b = Some q \<and> x \<in> set (conns (heap p' q))"
          by blast
      qed
      with False registry_okD(4) [OF ok, of x b] show ?thesis by (simp add: pk)
    qed
  qed
  with m show ?thesis by blast
qed

lemma registry_ok_same:
  assumes "registry_ok p" "groups p' = groups p" "pkeys p' = pkeys p" "nextRef p' = nextRef p"
    and "\<And>q. conns (heap p' q) = conns (heap p q) \<and> keys (heap p' q) = keys (heap p q) \<and>
              addr (heap p' q) = addr (heap p q)"
  shows "registry_ok p'"
  using assms(1) by (simp add: registry_ok_def group_ok_def assms(2-5))

lemma GetClientConn_group_registry_ok:
  assumes ok: "registry_ok p" and g: "GetClientConn_group a p = (r, p')"
  shows "registry_ok p' \<and> groups p' a = Some r \<and> pkeys p' = pkeys p"
proof (cases "groups p a")
  case (Some q)
  with g ok show ?thesis by (simp add: GetClientConn_group_def)
next
  case None
  let ?n = "nextRef p"
  from None g have r: "r = ?n"
    and p': "p' = p\<lparr>heap := (heap p)(?n := newGroup a), nextRef := Suc ?n,
                     groups := (groups p)(a \<mapsto> ?n)\<rparr>"
    by (auto simp: GetClientConn_group_def)
  have old: "q \<noteq> ?n" if "groups p b = Some q" for b q
    using registry_okD(1) [OF ok that] by simp
  have "registry_ok p'"
  proof (rule registry_okI)
    fix b q assume b: "groups p' b = Some q"
    show "q < nextRef p' \<and> addr (heap p' q) = b \<and> group_ok (heap p' q)"
    proof (cases "b = a")
      case True
      with b show ?thesis by (simp add: p' newGroup_def group_ok_def)
    next
      case False
      with b have b': "groups p b = Some q" by (simp add: p')
      with old [OF b'] registry_okD(1-3) [OF ok b'] show ?thesis by (simp add: p')
    qed
  next
    fix x b
    show "(pkeys p' x = Some b) = (\<exists>q. groups p' b = Some q \<and> x \<in> set (conns (heap p' q)))"
    proof (cases "b = a")
      case True
      have "pkeys p x \<noteq> Some a" using registry_okD(4) [OF ok, of x a] None by simp
      with True show ?thesis by (simp add: p' newGroup_def)
    next
      case False
      have "(\<exists>q. groups p' b = Some q \<and> x \<in> set (conns (heap p' q))) =
            (\<exists>q. groups p b = Some q \<and> x \<in> set (conns (heap p q)))"
        using False old [of b] by (auto simp: p')
      with registry_okD(4) [OF ok, of x b] show ?thesis by (simp add: p')
    qed
  qed
  with r show ?thesis by (simp add: p')
qed

lemma getClientConn_registry_ok:
  assumes ok: "registry_ok p" and g: "groups p a = Some r"
    and f: "\<And>c. dial a = Inr c \<Longrightarrow> pkeys p c = None"
  shows "registry_ok (snd (snd (getClientConn dial can r p)))"
proof (cases "conns (heap p r) = []")
  case True
  have ad: "addr (heap p r) = a" by (rule registry_okD(2) [OF ok g])
  show ?thesis
  proof (cases "dial a")
    case (Inl err)
    with True ad ok show ?thesis by (simp add: getClientConn_def)
  next
    case (Inr c)
    with True ad addClientConn_registry_ok [OF ok g f [OF Inr]] show ?thesis
      by (simp add: getClientConn_def)
  qed
next
  case False
  let ?g' = "snd (getClientConn_loop 0 (heap p r) can)"
  have "registry_ok (p\<lparr>heap := (heap p)(r := ?g')\<rparr>)"
    by (rule registry_ok_same [OF ok]) (simp_all add: loop_fields)
  then show ?thesis by (simp add: getClientConn_nonempty [OF False])
qed

lemma GetClientConn_registry_ok:
  assumes ok: "registry_ok p" and f: "\<And>c. dial a = Inr c \<Longrightarrow> pkeys p c = None"
  shows "registry_ok (snd (snd (GetClientConn dial can a p)))"
proof (cases "disableKeepAlives p")
  case True
  then show ?thesis using ok by (simp add: GetClientConn_def)
next
  case False
  obtain r p1 where g: "GetClientConn_group a p = (r, p1)" by (cases "GetClientConn_group a p")
  note e = GetClientConn_group_registry_ok [OF ok g]
  have "registry_ok (snd (snd (getClientConn dial can r p1)))"
    by (rule getClientConn_registry_ok [where a = a]) (use e f in simp_all)
  with False g show ?thesis by (simp add: GetClientConn_def)
qed

lemma group_dialClientConn_registry_ok:
  assumes ok: "registry_ok p" and g: "groups p a = Some r"
    and f: "\<And>c. dial a = Inr c \<Longrightarrow> pkeys p c = None"
  shows "registry_ok (group_dialClientConn dial r p)"
proof (cases "dial_cas r p")
  case None
  then show ?thesis using ok by (simp add: group_dialClientConn_def)
next
  case (Some p1)
  then have p1: "p1 = p\<lparr>heap := (heap p)(r := (heap p r)\<lparr>dialing := 1\<rparr>)\<rparr>"
    by (auto simp: dial_cas_def split: if_splits)
  have ok1: "registry_ok p1"
    by (rule registry_ok_same [OF ok]) (simp_all add: p1)
  have rs: "registry_ok (dial_reset r q)" if "registry_ok q" for q
    by (rule registry_ok_same [OF that]) (simp_all add: dial_reset_def)
  have ad: "addr (heap p1 r) = a" using registry_okD(2) [OF ok g] by (simp add: p1)
  have g1: "groups p1 a = Some r" using g by (simp add: p1)
  show ?thesis
  proof (cases "dial a")
    case (Inl err)
    with Some ad rs [OF ok1] show ?thesis by (simp add: group_dialClientConn_def)
  next
    case (Inr c)
    have "pkeys p1 c = None" using f [OF Inr] by (simp add: p1)
    from addClientConn_registry_ok [OF ok1 g1 this]
    have "registry_ok (dial_reset r (addClientConn r c p1))" by (rule rs)
    with Some ad Inr rs [OF ok1] show ?thesis by (simp add: group_dialClientConn_def)
  qed
qed

section \<open>The ownership map and the registry\<close>

text \<open>
  Claim C6, evaluated on the code: the execution of the race described with
  \<open>ex_leak\<close> is an execution of the program, and when every call has returned the
  pool's map holds connection 8 while the registry has no group at all, so no
  registered group lists it. The group the background dial appended to had been
  deleted from the registry by \<^verbatim>\<open>MarkDead\<close> in between; the lemmas of the previous
  section do not apply to it.
\<close>

theorem background_dial_registers_in_deleted_group:
  "reachable (ex_leak, (\<lambda>t. Idle)) \<and> pkeys ex_leak 8 = Some ex_addr \<and>
   groups ex_leak = Map.empty \<and> conns (heap ex_leak 0) = [8]"
proof -
  have "pkeys ex_leak 8 = Some ex_addr \<and> groups ex_leak = Map.empty \<and>
    conns (heap ex_leak 0) = [8]"
    by (simp add: run_defs)
  with reach_ex_leak show ?thesis by blast
qed

end
